theory Spec2Isabelle
  imports
    Main
    "HOL-Library.Multiset"
    "HOL-Library.Char_ord"
    "HOL-Library.List_Lexorder"
    "HOL-Library.Product_Lexorder"
begin

section \<open>Minimal-Tab-Sort: the tab sorter of a browser extension\<close>

text \<open>
  The repository holds two variants of one service worker:
  \<^item> \<^verbatim>\<open>src/background.js\<close>, written \<open>_B\<close> below: every tab is bucketed by the host of
    its URL;
  \<^item> \<^verbatim>\<open>src/unnamed/part_000\<close> ("Invariant"), written \<open>_A\<close> below: extension pages are
    bucketed as \<open>ext:\<close> followed by the extension id, internal browser pages as \<open>internal\<close>.

  Both read the browser's tab state, compute an order for each scope (pinned tabs, each tab
  group, the remaining tabs) and ask the browser to move the tabs.
\<close>

subsection \<open>Data\<close>

text \<open>The fields of a platform \<open>URL\<close> object that the code reads.\<close>

record URL =
  protocol :: string
  host :: string
  pathname :: string
  search :: string
  hash :: string

text \<open>
  A tab as \<open>chrome.tabs.query\<close> returns it. \<open>pendingUrl\<close> is absent unless a navigation is in
  flight; \<open>groupId\<close> is \<open>-1\<close> for a tab outside every group.
\<close>

record tab =
  tab_id :: int
  url :: string
  pendingUrl :: "string option"
  index :: nat
  pinned :: bool
  groupId :: int

record tabGroup =
  group_id :: int
  title :: "string option"

text \<open>
  The objects built by the \<open>tabs.map\<close> callback of \<open>sortTabsScope\<close>. The fields carry the names
  of \<^verbatim>\<open>part_000\<close> (\<open>hostKey\<close>, \<open>sortKey\<close>); \<^verbatim>\<open>background.js\<close> calls them \<open>hostname\<close> and \<open>key\<close>.
\<close>

record decorated =
  dec_id :: int
  originalIndex :: nat
  hostKey :: string
  sortKey :: string

text \<open>
  What can be thrown: \<open>TypeError\<close> by the \<open>URL\<close> constructor on an address it cannot parse
  (and by \<open>tabs[0]\<close> of an empty array), \<open>HostRejected\<close> by a request the browser rejects.
\<close>

datatype error = TypeError | HostRejected

subsection \<open>Platform built-ins\<close>

text \<open>
  Three built-ins of the JavaScript platform are parameters of the model, since their code is
  the browser's:
  \<^item> \<open>newURL :: string \<Rightarrow> URL option\<close>, the constructor \<open>new URL(s)\<close>, \<open>None\<close> when it throws;
  \<^item> \<open>enc :: string \<Rightarrow> string\<close>, the function \<open>encodeURIComponent\<close>;
  \<^item> \<open>cmp :: string \<Rightarrow> string \<Rightarrow> int\<close>, the method \<open>a.localeCompare(b)\<close>.

  The string methods with a fixed meaning are written out, on ASCII letters (a URL's host is
  ASCII).
\<close>

definition toLowerChar :: "char \<Rightarrow> char" where
  "toLowerChar c =
     (case map_of (zip ''ABCDEFGHIJKLMNOPQRSTUVWXYZ'' ''abcdefghijklmnopqrstuvwxyz'') c of
        Some l \<Rightarrow> l
      | None \<Rightarrow> c)"

definition toLowerCase :: "string \<Rightarrow> string" where
  "toLowerCase s = map toLowerChar s"

definition startsWith :: "string \<Rightarrow> string \<Rightarrow> bool" where
  "startsWith s p = (take (length p) s = p)"

text \<open>\<open>s.replace(WWW_RE, "")\<close> with \<open>WWW_RE = /^www\./i\<close>: one leading \<open>www.\<close>, in any case.\<close>

definition replaceWWW :: "string \<Rightarrow> string" where
  "replaceWWW s = (if toLowerCase (take 4 s) = ''www.'' then drop 4 s else s)"

text \<open>
  \<open>Array.prototype.sort(comparefn)\<close>: a stable sort (ECMAScript 2019). Insertion from the
  right, placing an element before the first one it does not exceed, is stable, and for the
  comparators below, which never return 0 on two different elements of the array, every
  sorting algorithm returns the same array (lemma \<open>sorted_perm_unique\<close>).
\<close>

fun insertBy :: "('a \<Rightarrow> 'a \<Rightarrow> int) \<Rightarrow> 'a \<Rightarrow> 'a list \<Rightarrow> 'a list" where
  "insertBy c x [] = [x]"
| "insertBy c x (y # ys) = (if c x y \<le> 0 then x # y # ys else y # insertBy c x ys)"

fun sortBy :: "('a \<Rightarrow> 'a \<Rightarrow> int) \<Rightarrow> 'a list \<Rightarrow> 'a list" where
  "sortBy c [] = []"
| "sortBy c (x # xs) = insertBy c x (sortBy c xs)"

text \<open>
  \<open>Array.prototype.map\<close> with a callback \<open>(element, index)\<close> that may throw: the first
  exception ends the loop.
\<close>

fun mapIndexed :: "('a \<Rightarrow> nat \<Rightarrow> error + 'b) \<Rightarrow> nat \<Rightarrow> 'a list \<Rightarrow> error + 'b list" where
  "mapIndexed f i [] = Inr []"
| "mapIndexed f i (x # xs) =
     (case f x i of
        Inl e \<Rightarrow> Inl e
      | Inr y \<Rightarrow> (case mapIndexed f (Suc i) xs of Inl e \<Rightarrow> Inl e | Inr ys \<Rightarrow> Inr (y # ys)))"

subsection \<open>URL resolution\<close>

text \<open>\<open>const raw = tab.pendingUrl || tab.url\<close>: an absent or empty pending address is falsy.\<close>

definition rawAddress :: "tab \<Rightarrow> string" where
  "rawAddress t = (case pendingUrl t of None \<Rightarrow> url t | Some p \<Rightarrow> if p = [] then url t else p)"

text \<open>\<open>new URL(s)\<close> as an expression: the value, or the exception.\<close>

definition construct :: "(string \<Rightarrow> URL option) \<Rightarrow> string \<Rightarrow> error + URL" where
  "construct newURL s = (case newURL s of None \<Rightarrow> Inl TypeError | Some u \<Rightarrow> Inr u)"

text \<open>\<open>try { return new URL(raw) } catch { return new URL("http://invalid/" + ...) }\<close>.\<close>

definition resolveTabUrl_B ::
  "(string \<Rightarrow> URL option) \<Rightarrow> (string \<Rightarrow> string) \<Rightarrow> tab \<Rightarrow> error + URL" where
  "resolveTabUrl_B newURL enc t =
     (let raw = rawAddress t in
      case newURL raw of
        Some u \<Rightarrow> Inr u
      | None \<Rightarrow> construct newURL (''http://invalid/'' @ enc raw))"

text \<open>The test of the second \<open>if\<close> of \<open>resolveTabUrl\<close> in \<^verbatim>\<open>part_000\<close>.\<close>

definition internalPrefix :: "string \<Rightarrow> bool" where
  "internalPrefix raw =
     (startsWith raw ''chrome://'' \<or> startsWith raw ''about:'' \<or>
      startsWith raw ''edge://'' \<or> startsWith raw ''brave://'')"

definition resolveTabUrl_A ::
  "(string \<Rightarrow> URL option) \<Rightarrow> (string \<Rightarrow> string) \<Rightarrow> tab \<Rightarrow> error + URL" where
  "resolveTabUrl_A newURL enc t =
     (let raw = rawAddress t in
      if startsWith raw ''chrome-extension://'' then construct newURL raw
      else if internalPrefix raw then construct newURL (''http://internal/'' @ enc raw)
      else (case newURL raw of
              Some u \<Rightarrow> Inr u
            | None \<Rightarrow> construct newURL (''http://invalid/'' @ enc raw)))"

subsection \<open>Sorting one scope\<close>

text \<open>\<open>cleanHost\<close> of \<^verbatim>\<open>background.js\<close>, and the second branch of \<open>hostKey\<close> in \<^verbatim>\<open>part_000\<close>.\<close>

definition cleanHost :: "URL \<Rightarrow> string" where
  "cleanHost u = toLowerCase (replaceWWW (host u))"

definition hostKey_A :: "URL \<Rightarrow> string" where
  "hostKey_A u =
     (if protocol u = ''chrome-extension:'' then ''ext:'' @ host u
      else if protocol u = ''http:'' \<or> protocol u = ''https:'' then toLowerCase (replaceWWW (host u))
      else ''internal'')"

text \<open>The callbacks of \<open>tabs.map\<close>.\<close>

definition decorate_B ::
  "(string \<Rightarrow> URL option) \<Rightarrow> (string \<Rightarrow> string) \<Rightarrow> tab \<Rightarrow> nat \<Rightarrow> error + decorated" where
  "decorate_B newURL enc t i =
     (case resolveTabUrl_B newURL enc t of
        Inl e \<Rightarrow> Inl e
      | Inr u \<Rightarrow>
          Inr \<lparr>dec_id = tab_id t, originalIndex = i, hostKey = cleanHost u,
               sortKey = cleanHost u @ pathname u @ search u @ hash u\<rparr>)"

definition decorate_A ::
  "(string \<Rightarrow> URL option) \<Rightarrow> (string \<Rightarrow> string) \<Rightarrow> tab \<Rightarrow> nat \<Rightarrow> error + decorated" where
  "decorate_A newURL enc t i =
     (case resolveTabUrl_A newURL enc t of
        Inl e \<Rightarrow> Inl e
      | Inr u \<Rightarrow>
          Inr \<lparr>dec_id = tab_id t, originalIndex = i, hostKey = hostKey_A u,
               sortKey = hostKey_A u @ pathname u @ search u @ hash u\<rparr>)"

text \<open>
  The comparator of \<open>decorated.sort\<close>, the same in both files: host keys, then sort keys, then
  \<open>a.originalIndex - b.originalIndex\<close>.
\<close>

definition compareDecorated :: "(string \<Rightarrow> string \<Rightarrow> int) \<Rightarrow> decorated \<Rightarrow> decorated \<Rightarrow> int" where
  "compareDecorated cmp a b =
     (let h = cmp (hostKey a) (hostKey b) in
      if h \<noteq> 0 then h
      else let k = cmp (sortKey a) (sortKey b) in
           if k \<noteq> 0 then k
           else int (originalIndex a) - int (originalIndex b))"

text \<open>
  The value of \<open>decorated\<close> after \<open>decorated.sort\<close>, and the value of \<open>sortedIds\<close>: the list of
  identities that \<open>sortTabsScope\<close> hands to \<open>chrome.tabs.move\<close>.
\<close>

definition sortedDecorated_B ::
  "(string \<Rightarrow> URL option) \<Rightarrow> (string \<Rightarrow> string) \<Rightarrow> (string \<Rightarrow> string \<Rightarrow> int) \<Rightarrow>
   tab list \<Rightarrow> error + decorated list" where
  "sortedDecorated_B newURL enc cmp tabs =
     (case mapIndexed (decorate_B newURL enc) 0 tabs of
        Inl e \<Rightarrow> Inl e
      | Inr ds \<Rightarrow> Inr (sortBy (compareDecorated cmp) ds))"

definition sortedDecorated_A ::
  "(string \<Rightarrow> URL option) \<Rightarrow> (string \<Rightarrow> string) \<Rightarrow> (string \<Rightarrow> string \<Rightarrow> int) \<Rightarrow>
   tab list \<Rightarrow> error + decorated list" where
  "sortedDecorated_A newURL enc cmp tabs =
     (case mapIndexed (decorate_A newURL enc) 0 tabs of
        Inl e \<Rightarrow> Inl e
      | Inr ds \<Rightarrow> Inr (sortBy (compareDecorated cmp) ds))"

definition sortedIds_B ::
  "(string \<Rightarrow> URL option) \<Rightarrow> (string \<Rightarrow> string) \<Rightarrow> (string \<Rightarrow> string \<Rightarrow> int) \<Rightarrow>
   tab list \<Rightarrow> error + int list" where
  "sortedIds_B newURL enc cmp tabs =
     (case sortedDecorated_B newURL enc cmp tabs of
        Inl e \<Rightarrow> Inl e
      | Inr ds \<Rightarrow> Inr (map dec_id ds))"

definition sortedIds_A ::
  "(string \<Rightarrow> URL option) \<Rightarrow> (string \<Rightarrow> string) \<Rightarrow> (string \<Rightarrow> string \<Rightarrow> int) \<Rightarrow>
   tab list \<Rightarrow> error + int list" where
  "sortedIds_A newURL enc cmp tabs =
     (case sortedDecorated_A newURL enc cmp tabs of
        Inl e \<Rightarrow> Inl e
      | Inr ds \<Rightarrow> Inr (map dec_id ds))"

subsection \<open>The browser's tab surface\<close>

text \<open>
  Modelled from the spec: the host tab-management surface (\<open>chrome.tabs\<close>, \<open>chrome.tabGroups\<close>)
  is the browser's and not part of the repository; the operations below follow the contracts
  of the specification's section "External interfaces". The focused window is the list of its
  tabs from left to right; \<open>requests\<close> records the mutating requests the browser has
  accepted, oldest first. A request that names a tab or group the window does not have is
  rejected and changes nothing.
\<close>

datatype request =
  TabsMove "int list" nat
| TabsGroup int "int list"
| TabsUpdatePinned int
| TabGroupsMove int nat

record host =
  window :: "tab list"
  tabGroups :: "tabGroup list"
  requests :: "request list"

type_synonym outcome = "error option \<times> host"

text \<open>\<open>await a; b\<close>: a rejection of \<open>a\<close> ends the operation with the state reached.\<close>

definition andThen :: "outcome \<Rightarrow> (host \<Rightarrow> outcome) \<Rightarrow> outcome" where
  "andThen r k = (case r of (None, h) \<Rightarrow> k h | (Some e, h) \<Rightarrow> (Some e, h))"

text \<open>Tab query: the matching tabs, left to right, each with its current position.\<close>

fun reindex :: "nat \<Rightarrow> tab list \<Rightarrow> tab list" where
  "reindex i [] = []"
| "reindex i (t # ts) = t\<lparr>index := i\<rparr> # reindex (Suc i) ts"

definition tabs_query :: "(tab \<Rightarrow> bool) \<Rightarrow> host \<Rightarrow> tab list" where
  "tabs_query P h = filter P (reindex 0 (window h))"

definition knownTabs :: "host \<Rightarrow> int list \<Rightarrow> bool" where
  "knownTabs h ids = list_all (\<lambda>x. x \<in> set (map tab_id (window h))) ids"

text \<open>
  Tab move: "relocate them (as a contiguous block, preserving the given order) to begin at
  that position".
\<close>

definition tabs_move :: "int list \<Rightarrow> nat \<Rightarrow> host \<Rightarrow> outcome" where
  "tabs_move ids i h =
     (if \<not> knownTabs h ids then (Some HostRejected, h)
      else let moved = concat (map (\<lambda>x. filter (\<lambda>t. tab_id t = x) (window h)) (remdups ids));
               rest = filter (\<lambda>t. tab_id t \<notin> set ids) (window h)
           in (None, h\<lparr>window := take i rest @ moved @ drop i rest,
                       requests := requests h @ [TabsMove ids i]\<rparr>))"

text \<open>Tab group (assign): "ensure all those tabs belong to that group".\<close>

definition tabs_group :: "int \<Rightarrow> int list \<Rightarrow> host \<Rightarrow> outcome" where
  "tabs_group g ids h =
     (if \<not> knownTabs h ids \<or> g \<notin> set (map group_id (tabGroups h)) then (Some HostRejected, h)
      else (None, h\<lparr>window := map (\<lambda>t. if tab_id t \<in> set ids then t\<lparr>groupId := g\<rparr> else t) (window h),
                    requests := requests h @ [TabsGroup g ids]\<rparr>))"

text \<open>Tab update (pin): "given a tab identity, set its pinned flag".\<close>

definition tabs_update_pinned :: "int \<Rightarrow> host \<Rightarrow> outcome" where
  "tabs_update_pinned x h =
     (if \<not> knownTabs h [x] then (Some HostRejected, h)
      else (None, h\<lparr>window := map (\<lambda>t. if tab_id t = x then t\<lparr>pinned := True\<rparr> else t) (window h),
                    requests := requests h @ [TabsUpdatePinned x]\<rparr>))"

text \<open>
  Tab-group move: "relocate the entire group (all member tabs as a block) to begin at that
  position".
\<close>

definition tabGroups_move :: "int \<Rightarrow> nat \<Rightarrow> host \<Rightarrow> outcome" where
  "tabGroups_move g i h =
     (if g \<notin> set (map group_id (tabGroups h)) then (Some HostRejected, h)
      else let members = filter (\<lambda>t. groupId t = g) (window h);
               rest = filter (\<lambda>t. groupId t \<noteq> g) (window h)
           in (None, h\<lparr>window := take i rest @ members @ drop i rest,
                       requests := requests h @ [TabGroupsMove g i]\<rparr>))"

subsection \<open>The orchestration\<close>

text \<open>\<open>minIndex\<close>: \<open>tabs[0].index\<close> throws on an empty array; the loop keeps the least index.\<close>

definition minIndex :: "tab list \<Rightarrow> error + nat" where
  "minIndex tabs =
     (case tabs of
        [] \<Rightarrow> Inl TypeError
      | t # ts \<Rightarrow> Inr (fold (\<lambda>x m. if index x < m then index x else m) ts (index t)))"

text \<open>
  \<open>sortTabsScope\<close>: nothing for an empty list; else the move request with \<open>sortedIds\<close>, then,
  for a group identity above \<open>-1\<close>, the group request. An exception of the decoration leaves
  the function before any request.
\<close>

definition sortTabsScope_B ::
  "(string \<Rightarrow> URL option) \<Rightarrow> (string \<Rightarrow> string) \<Rightarrow> (string \<Rightarrow> string \<Rightarrow> int) \<Rightarrow>
   tab list \<Rightarrow> nat \<Rightarrow> int \<Rightarrow> host \<Rightarrow> outcome" where
  "sortTabsScope_B newURL enc cmp tabs startIndex gid h =
     (if tabs = [] then (None, h)
      else case sortedIds_B newURL enc cmp tabs of
             Inl e \<Rightarrow> (Some e, h)
           | Inr sortedIds \<Rightarrow>
               andThen (tabs_move sortedIds startIndex h)
                 (\<lambda>h1. if gid > - 1 then tabs_group gid sortedIds h1 else (None, h1)))"

definition sortTabsScope_A ::
  "(string \<Rightarrow> URL option) \<Rightarrow> (string \<Rightarrow> string) \<Rightarrow> (string \<Rightarrow> string \<Rightarrow> int) \<Rightarrow>
   tab list \<Rightarrow> nat \<Rightarrow> int \<Rightarrow> host \<Rightarrow> outcome" where
  "sortTabsScope_A newURL enc cmp tabs startIndex gid h =
     (if tabs = [] then (None, h)
      else case sortedIds_A newURL enc cmp tabs of
             Inl e \<Rightarrow> (Some e, h)
           | Inr sortedIds \<Rightarrow>
               andThen (tabs_move sortedIds startIndex h)
                 (\<lambda>h1. if gid > - 1 then tabs_group gid sortedIds h1 else (None, h1)))"

text \<open>
  \<open>Promise.all(pinnedTabs.map(t => chrome.tabs.update(t.id, { pinned: true })))\<close>: every
  request is issued; the first rejection, if any, is the outcome.
\<close>

fun pinAll :: "int list \<Rightarrow> host \<Rightarrow> outcome" where
  "pinAll [] h = (None, h)"
| "pinAll (x # xs) h =
     (case tabs_update_pinned x h of
        (None, h1) \<Rightarrow> pinAll xs h1
      | (Some e, h1) \<Rightarrow> (Some e, snd (pinAll xs h1)))"

text \<open>The comparator of \<open>tabGroups.sort\<close>: \<open>(b.title || "").localeCompare(a.title || "")\<close>.\<close>

definition titleOrEmpty :: "tabGroup \<Rightarrow> string" where
  "titleOrEmpty g = (case title g of None \<Rightarrow> [] | Some s \<Rightarrow> s)"

definition compareTitleDesc :: "(string \<Rightarrow> string \<Rightarrow> int) \<Rightarrow> tabGroup \<Rightarrow> tabGroup \<Rightarrow> int" where
  "compareTitleDesc cmp a b = cmp (titleOrEmpty b) (titleOrEmpty a)"

text \<open>
  The loop \<open>for (const group of tabGroups)\<close>, the same in both files; \<open>scope\<close> is the file's
  \<open>sortTabsScope\<close>.
\<close>

fun groupLoop ::
  "(tab list \<Rightarrow> nat \<Rightarrow> int \<Rightarrow> host \<Rightarrow> outcome) \<Rightarrow> tabGroup list \<Rightarrow> nat \<Rightarrow> host \<Rightarrow> outcome" where
  "groupLoop scope [] nextPosition h = (None, h)"
| "groupLoop scope (g # gs) nextPosition h =
     andThen (tabGroups_move (group_id g) nextPosition h)
       (\<lambda>h1. let tabs = tabs_query (\<lambda>t. groupId t = group_id g) h1 in
              if tabs \<noteq> [] then
                (case minIndex tabs of
                   Inl e \<Rightarrow> (Some e, h1)
                 | Inr m \<Rightarrow>
                     andThen (scope tabs m (group_id g) h1)
                       (groupLoop scope gs (nextPosition + length tabs)))
              else groupLoop scope gs nextPosition h1)"

text \<open>
  \<open>sortAllTabs\<close>, on the focused window: the pinned tabs, the groups by title, the remaining
  tabs. The outcome holds the exception that the caller's \<open>catch\<close> logs, if any.
\<close>

definition sortUngrouped ::
  "(tab list \<Rightarrow> nat \<Rightarrow> int \<Rightarrow> host \<Rightarrow> outcome) \<Rightarrow> host \<Rightarrow> outcome" where
  "sortUngrouped scope h =
     (let ungroupedTabs = tabs_query (\<lambda>t. \<not> pinned t \<and> groupId t = - 1) h in
      if ungroupedTabs \<noteq> [] then
        (case minIndex ungroupedTabs of
           Inl e \<Rightarrow> (Some e, h)
         | Inr m \<Rightarrow> scope ungroupedTabs m (- 1) h)
      else (None, h))"

definition sortPinned ::
  "(tab list \<Rightarrow> nat \<Rightarrow> int \<Rightarrow> host \<Rightarrow> outcome) \<Rightarrow> tab list \<Rightarrow> host \<Rightarrow> outcome" where
  "sortPinned scope pinnedTabs h =
     (if pinnedTabs \<noteq> [] then
        andThen (scope pinnedTabs 0 (groupId (hd pinnedTabs)) h) (pinAll (map tab_id pinnedTabs))
      else (None, h))"

definition sortAllTabs_B ::
  "(string \<Rightarrow> URL option) \<Rightarrow> (string \<Rightarrow> string) \<Rightarrow> (string \<Rightarrow> string \<Rightarrow> int) \<Rightarrow> host \<Rightarrow> outcome" where
  "sortAllTabs_B newURL enc cmp h =
     (let pinnedTabs = tabs_query pinned h;
          nextPosition = length pinnedTabs
      in andThen (sortPinned (sortTabsScope_B newURL enc cmp) pinnedTabs h)
           (\<lambda>h1. andThen
                    (if tabGroups h1 \<noteq> [] then
                       groupLoop (sortTabsScope_B newURL enc cmp)
                         (sortBy (compareTitleDesc cmp) (tabGroups h1)) nextPosition h1
                     else (None, h1))
                    (sortUngrouped (sortTabsScope_B newURL enc cmp))))"

definition sortAllTabs_A ::
  "(string \<Rightarrow> URL option) \<Rightarrow> (string \<Rightarrow> string) \<Rightarrow> (string \<Rightarrow> string \<Rightarrow> int) \<Rightarrow> host \<Rightarrow> outcome" where
  "sortAllTabs_A newURL enc cmp h =
     (let pinnedTabs = tabs_query pinned h;
          nextPosition = length pinnedTabs
      in andThen (sortPinned (sortTabsScope_A newURL enc cmp) pinnedTabs h)
           (\<lambda>h1. andThen
                    (groupLoop (sortTabsScope_A newURL enc cmp)
                       (sortBy (compareTitleDesc cmp) (tabGroups h1)) nextPosition h1)
                    (sortUngrouped (sortTabsScope_A newURL enc cmp))))"

subsection \<open>Reference instances of the platform built-ins\<close>

text \<open>
  Concrete, executable instances of the three parameters, used to run the model on concrete
  tabs. They follow the URL Standard and ECMAScript on the addresses they are run on and are
  not part of the repository.
\<close>

definition isDigit :: "char \<Rightarrow> bool" where
  "isDigit c = (48 \<le> (of_char c :: nat) \<and> (of_char c :: nat) \<le> 57)"

definition isUpperAlpha :: "char \<Rightarrow> bool" where
  "isUpperAlpha c = (65 \<le> (of_char c :: nat) \<and> (of_char c :: nat) \<le> 90)"

definition isLowerAlpha :: "char \<Rightarrow> bool" where
  "isLowerAlpha c = (97 \<le> (of_char c :: nat) \<and> (of_char c :: nat) \<le> 122)"

definition isAlnum :: "char \<Rightarrow> bool" where
  "isAlnum c = (isDigit c \<or> isUpperAlpha c \<or> isLowerAlpha c)"

definition hexDigit :: "nat \<Rightarrow> char" where
  "hexDigit n = ''0123456789ABCDEF'' ! (n mod 16)"

definition percentByte :: "nat \<Rightarrow> string" where
  "percentByte n = [CHR ''%'', hexDigit (n div 16), hexDigit n]"

text \<open>
  \<open>encodeURIComponent\<close>: letters, digits and \<open>- _ . ! ~ * ' ( )\<close> stay, every other character
  becomes the percent-encoded bytes of its UTF-8 form (a \<open>char\<close> is read as a code point below
  256, so two bytes from 128 on).
\<close>

definition encodeChar :: "char \<Rightarrow> string" where
  "encodeChar c =
     (let n = (of_char c :: nat) in
      if isAlnum c \<or> c \<in> set ''-_.!~*()'' \<or> n = 39 then [c]
      else if n < 128 then percentByte n
      else percentByte (192 + n div 64) @ percentByte (128 + n mod 64))"

definition encodeURIComponent :: "string \<Rightarrow> string" where
  "encodeURIComponent s = concat (map encodeChar s)"

text \<open>
  \<open>new URL(s)\<close> for addresses of the form \<open>scheme:[//host[:port]][path][?query][#fragment]\<close>
  with an ASCII host name: the scheme is lower-cased; a special scheme takes an authority
  whatever the number of slashes, needs a host and gets the path \<open>/\<close> when none is written;
  a host with a character outside letters, digits, \<open>-\<close>, \<open>.\<close> and \<open>_\<close> is refused, as is an
  address with no scheme. Credentials, IPv6 literals, IDNA, default ports and dot segments are
  outside this instance.
\<close>

definition schemeChar :: "char \<Rightarrow> bool" where
  "schemeChar c = (isAlnum c \<or> c \<in> set ''+-.'')"

definition hostChar :: "char \<Rightarrow> bool" where
  "hostChar c = (isAlnum c \<or> c \<in> set ''-._'')"

definition splitScheme :: "string \<Rightarrow> (string \<times> string) option" where
  "splitScheme raw =
     (let s = takeWhile (\<lambda>c. c \<noteq> CHR '':'') raw;
          r = dropWhile (\<lambda>c. c \<noteq> CHR '':'') raw
      in if r = [] \<or> s = [] then None
         else if \<not> (isUpperAlpha (hd s) \<or> isLowerAlpha (hd s)) \<or> \<not> list_all schemeChar s then None
         else Some (toLowerCase s, tl r))"

definition validAuthority :: "bool \<Rightarrow> string \<Rightarrow> bool" where
  "validAuthority special a =
     (let h = takeWhile (\<lambda>c. c \<noteq> CHR '':'') a;
          p = dropWhile (\<lambda>c. c \<noteq> CHR '':'') a
      in (special \<longrightarrow> h \<noteq> []) \<and> list_all hostChar h \<and> (p = [] \<or> list_all isDigit (tl p)))"

definition buildURL :: "string \<Rightarrow> bool \<Rightarrow> string \<Rightarrow> string \<Rightarrow> string \<Rightarrow> string \<Rightarrow> URL" where
  "buildURL scheme special a p q f =
     \<lparr>protocol = scheme @ '':'',
      host = (if special then toLowerCase a else a),
      pathname = (if special \<and> p = [] then ''/'' else p),
      search = (if q = ''?'' then [] else q),
      hash = (if f = ''#'' then [] else f)\<rparr>"

definition newURL_ref :: "string \<Rightarrow> URL option" where
  "newURL_ref raw =
     (case splitScheme raw of
        None \<Rightarrow> None
      | Some (scheme, rest) \<Rightarrow>
          let special = (scheme \<in> set [''http'', ''https'', ''ftp'', ''ws'', ''wss'']);
              hasAuthority = (special \<or> startsWith rest ''//'');
              r = (if special then dropWhile (\<lambda>c. c = CHR ''/'' \<or> c = CHR 0x5C) rest
                   else if hasAuthority then drop 2 rest else rest);
              a = (if hasAuthority then takeWhile (\<lambda>c. c \<notin> set ''/?#'') r else []);
              t = (if hasAuthority then dropWhile (\<lambda>c. c \<notin> set ''/?#'') r else r);
              p = takeWhile (\<lambda>c. c \<notin> set ''?#'') t;
              q = takeWhile (\<lambda>c. c \<noteq> CHR ''#'') (dropWhile (\<lambda>c. c \<notin> set ''?#'') t);
              f = dropWhile (\<lambda>c. c \<noteq> CHR ''#'') t
          in if hasAuthority \<and> \<not> validAuthority special a then None
             else Some (buildURL scheme special a p q f))"

text \<open>
  \<open>a.localeCompare(b)\<close>: strings are compared letter by letter without regard to case, and
  strings that differ in case only with the lower-case letter first, as the default collation
  does on ASCII letters.
\<close>

definition collationKey :: "string \<Rightarrow> string \<times> bool list" where
  "collationKey s = (toLowerCase s, map isUpperAlpha s)"

definition localeCompare_ref :: "string \<Rightarrow> string \<Rightarrow> int" where
  "localeCompare_ref a b =
     (if collationKey a < collationKey b then - 1
      else if collationKey a = collationKey b then 0 else 1)"

text \<open>
  What the claims assume of the platform. A collation is a total preorder given as a
  three-way comparison.
\<close>

definition collation :: "(string \<Rightarrow> string \<Rightarrow> int) \<Rightarrow> bool" where
  "collation cmp =
     ((\<forall>a. cmp a a = 0) \<and>
      (\<forall>a b. (cmp a b < 0) = (0 < cmp b a)) \<and>
      (\<forall>a b c. cmp a b \<le> 0 \<and> cmp b c \<le> 0 \<longrightarrow> cmp a c \<le> 0))"

text \<open>
  The scheme a parser reports is the one the address is written with: an address that begins
  with a lower-case scheme and a colon has that scheme as its \<open>protocol\<close>.
\<close>

definition lowerScheme :: "string \<Rightarrow> bool" where
  "lowerScheme s =
     (s \<noteq> [] \<and> isLowerAlpha (hd s) \<and>
      list_all (\<lambda>c. isLowerAlpha c \<or> isDigit c \<or> c \<in> set ''+-.'') s)"

definition scheme_faithful :: "(string \<Rightarrow> URL option) \<Rightarrow> bool" where
  "scheme_faithful newURL =
     (\<forall>s r u. lowerScheme s \<and> newURL (s @ '':'' @ r) = Some u \<longrightarrow> protocol u = s @ '':'')"

text \<open>
  An \<open>http\<close> address with the host \<open>h\<close> and any path parses, to a URL of that scheme and host:
  the placeholders \<open>"http://internal/" + ...\<close> and \<open>"http://invalid/" + ...\<close> never throw.
\<close>

definition placeholder_host :: "(string \<Rightarrow> URL option) \<Rightarrow> string \<Rightarrow> bool" where
  "placeholder_host newURL h =
     (\<forall>p. \<exists>u. newURL (''http://'' @ h @ ''/'' @ p) = Some u \<and> protocol u = ''http:'' \<and> host u = h)"

subsection \<open>The order of a scope in the words of the specification\<close>

text \<open>
  "Sort by bucket key (ascending, collated), then sort key (ascending, collated), then original
  index (ascending)": \<open>a\<close> comes before \<open>b\<close>.
\<close>

definition spec_precedes :: "(string \<Rightarrow> string \<Rightarrow> int) \<Rightarrow> decorated \<Rightarrow> decorated \<Rightarrow> bool" where
  "spec_precedes cmp a b =
     (cmp (hostKey a) (hostKey b) < 0 \<or>
      (cmp (hostKey a) (hostKey b) = 0 \<and>
       (cmp (sortKey a) (sortKey b) < 0 \<or>
        (cmp (sortKey a) (sortKey b) = 0 \<and> originalIndex a < originalIndex b))))"

text \<open>
  "The host lower-cased, with a single leading \<open>www.\<close> stripped case-insensitively", in the
  order of the words: lower-case first, then strip.
\<close>

definition spec_hostBucket :: "string \<Rightarrow> string" where
  "spec_hostBucket h = (let l = toLowerCase h in if startsWith l ''www.'' then drop 4 l else l)"

text \<open>
  \<open>out\<close> is the order of the scope \<open>tabs\<close>: it holds, for each tab, its identity, its index in
  \<open>tabs\<close>, its bucket key and the sort key "bucket key, path, query, fragment", and it is
  arranged by \<open>spec_precedes\<close>. \<open>resolve\<close> is the URL classifier and \<open>bucket\<close> the bucket key of
  a classified URL.
\<close>

definition spec_decoration :: "(URL \<Rightarrow> string) \<Rightarrow> tab \<Rightarrow> nat \<Rightarrow> URL \<Rightarrow> decorated" where
  "spec_decoration bucket t i u =
     \<lparr>dec_id = tab_id t, originalIndex = i, hostKey = bucket u,
      sortKey = bucket u @ pathname u @ search u @ hash u\<rparr>"

definition spec_scope_order ::
  "(tab \<Rightarrow> error + URL) \<Rightarrow> (URL \<Rightarrow> string) \<Rightarrow> (string \<Rightarrow> string \<Rightarrow> int) \<Rightarrow>
   tab list \<Rightarrow> decorated list \<Rightarrow> bool" where
  "spec_scope_order resolve bucket cmp tabs out =
     (length out = length tabs \<and>
      (\<forall>i<length tabs. \<exists>u. resolve (tabs ! i) = Inr u \<and>
                               spec_decoration bucket (tabs ! i) i u \<in> set out) \<and>
      sorted_wrt (spec_precedes cmp) out)"


definition arranged :: "tab list \<Rightarrow> decorated list \<Rightarrow> tab list" where
  "arranged tabs out = map (\<lambda>d. tabs ! originalIndex d) out"

section \<open>Properties\<close>

lemma mset_insertBy: "mset (insertBy c x xs) = add_mset x (mset xs)"
  by (induction xs) auto

lemma mset_sortBy: "mset (sortBy c xs) = mset xs"
  by (induction xs) (auto simp: mset_insertBy)

subsection \<open>Collations\<close>

lemma collation_refl: "collation cmp \<Longrightarrow> cmp a a = 0"
  by (simp add: collation_def)

lemma collation_flip: "collation cmp \<Longrightarrow> (cmp a b < 0) = (0 < cmp b a)"
  by (simp add: collation_def)

lemma collation_trans: "collation cmp \<Longrightarrow> cmp a b \<le> 0 \<Longrightarrow> cmp b c \<le> 0 \<Longrightarrow> cmp a c \<le> 0"
  unfolding collation_def by blast

lemma collation_sym0: 
  assumes "collation cmp" "cmp a b = 0" shows "cmp b a = 0"
proof -
  have "\<not> cmp b a < 0" using collation_flip[OF assms(1), of b a] assms(2) by simp
  moreover have "\<not> 0 < cmp b a" using collation_flip[OF assms(1), of a b] assms(2) by simp
  ultimately show ?thesis by simp
qed

lemma collation_total: 
  assumes "collation cmp" shows "cmp a b \<le> 0 \<or> cmp b a \<le> 0"
  using collation_flip[OF assms, of b a] by linarith

lemma collation_lt_le:
  assumes "collation cmp" "cmp a b < 0" "cmp b c \<le> 0" shows "cmp a c < 0"
proof (rule ccontr)
  assume "\<not> cmp a c < 0"
  then have "cmp c a \<le> 0" using collation_flip[OF assms(1), of a c] by linarith
  with assms(3) have "cmp b a \<le> 0" using collation_trans[OF assms(1)] by blast
  then show False using collation_flip[OF assms(1), of a b] assms(2) by linarith
qed

lemma collation_le_lt:
  assumes "collation cmp" "cmp a b \<le> 0" "cmp b c < 0" shows "cmp a c < 0"
proof (rule ccontr)
  assume "\<not> cmp a c < 0"
  then have "cmp c a \<le> 0" using collation_flip[OF assms(1), of a c] by linarith
  with assms(2) have "cmp c b \<le> 0" using collation_trans[OF assms(1)] by blast
  then show False using collation_flip[OF assms(1), of b c] assms(3) by linarith
qed

lemma collation_eq_trans:
  assumes "collation cmp" "cmp a b = 0" "cmp b c = 0" shows "cmp a c = 0"
proof -
  have "cmp a c \<le> 0" using collation_trans[OF assms(1), of a b c] assms by simp
  moreover have "cmp c a \<le> 0"
    using collation_trans[OF assms(1), of c b a] collation_sym0[OF assms(1)] assms by simp
  ultimately show ?thesis using collation_flip[OF assms(1), of a c] by linarith
qed

lemma collation_ref: "collation localeCompare_ref"
  unfolding collation_def localeCompare_ref_def by auto

subsection \<open>The comparator\<close>

lemma compareDecorated_total:
  assumes "collation cmp"
  shows "compareDecorated cmp a b \<le> 0 \<or> compareDecorated cmp b a \<le> 0"
proof -
  let ?h = "cmp (hostKey a) (hostKey b)" and ?h' = "cmp (hostKey b) (hostKey a)"
  let ?k = "cmp (sortKey a) (sortKey b)" and ?k' = "cmp (sortKey b) (sortKey a)"
  have h: "(?h < 0) = (0 < ?h')" "(?h' < 0) = (0 < ?h)"
    using collation_flip[OF assms] by blast+
  have k: "(?k < 0) = (0 < ?k')" "(?k' < 0) = (0 < ?k)"
    using collation_flip[OF assms] by blast+
  show ?thesis
    using h k by (auto simp: compareDecorated_def Let_def)
qed

lemma compareDecorated_le_iff:
  "compareDecorated cmp a b \<le> 0 \<longleftrightarrow>
     cmp (hostKey a) (hostKey b) < 0 \<or>
     (cmp (hostKey a) (hostKey b) = 0 \<and>
       (cmp (sortKey a) (sortKey b) < 0 \<or>
        (cmp (sortKey a) (sortKey b) = 0 \<and> originalIndex a \<le> originalIndex b)))"
  by (auto simp: compareDecorated_def Let_def)

lemma compareDecorated_trans:
  assumes c: "collation cmp"
    and ab: "compareDecorated cmp a b \<le> 0" and bd: "compareDecorated cmp b d \<le> 0"
  shows "compareDecorated cmp a d \<le> 0"
proof -
  let ?h1 = "cmp (hostKey a) (hostKey b)" and ?h2 = "cmp (hostKey b) (hostKey d)"
  let ?k1 = "cmp (sortKey a) (sortKey b)" and ?k2 = "cmp (sortKey b) (sortKey d)"
  from ab have A: "?h1 < 0 \<or> (?h1 = 0 \<and> (?k1 < 0 \<or> (?k1 = 0 \<and> originalIndex a \<le> originalIndex b)))"
    by (simp only: compareDecorated_le_iff)
  from bd have B: "?h2 < 0 \<or> (?h2 = 0 \<and> (?k2 < 0 \<or> (?k2 = 0 \<and> originalIndex b \<le> originalIndex d)))"
    by (simp only: compareDecorated_le_iff)
  show ?thesis
  proof (cases "?h1 < 0 \<or> ?h2 < 0")
    case True
    then have "cmp (hostKey a) (hostKey d) < 0"
      using A B collation_lt_le[OF c, of "hostKey a" "hostKey b" "hostKey d"]
        collation_le_lt[OF c, of "hostKey a" "hostKey b" "hostKey d"] by linarith
    then show ?thesis by (simp add: compareDecorated_le_iff)
  next
    case False
    with A B have h: "?h1 = 0" "?h2 = 0" by linarith+
    then have hd: "cmp (hostKey a) (hostKey d) = 0" by (rule collation_eq_trans[OF c])
    from False A B have A': "?k1 < 0 \<or> (?k1 = 0 \<and> originalIndex a \<le> originalIndex b)"
      and B': "?k2 < 0 \<or> (?k2 = 0 \<and> originalIndex b \<le> originalIndex d)" by linarith+
    show ?thesis
    proof (cases "?k1 < 0 \<or> ?k2 < 0")
      case True
      then have "cmp (sortKey a) (sortKey d) < 0"
        using A' B' collation_lt_le[OF c, of "sortKey a" "sortKey b" "sortKey d"]
          collation_le_lt[OF c, of "sortKey a" "sortKey b" "sortKey d"] by linarith
      with hd show ?thesis by (simp add: compareDecorated_le_iff)
    next
      case False
      with A' B' have k: "?k1 = 0" "?k2 = 0" and i: "originalIndex a \<le> originalIndex d"
        by linarith+
      from k have "cmp (sortKey a) (sortKey d) = 0" by (rule collation_eq_trans[OF c])
      with hd i show ?thesis by (simp add: compareDecorated_le_iff)
    qed
  qed
qed

subsection \<open>The sort\<close>

lemma set_insertBy: "set (insertBy c x xs) = insert x (set xs)"
  by (induction xs) auto

lemma set_sortBy: "set (sortBy c xs) = set xs"
  by (induction xs) (auto simp: set_insertBy)

lemma length_sortBy: "length (sortBy c xs) = length xs"
  using mset_sortBy[of c xs] by (metis size_mset)

lemma sorted_insertBy:
  assumes total: "\<And>a b. c a b \<le> 0 \<or> c b a \<le> 0"
    and trans: "\<And>a b d. c a b \<le> 0 \<Longrightarrow> c b d \<le> 0 \<Longrightarrow> c a d \<le> 0"
  shows "sorted_wrt (\<lambda>a b. c a b \<le> 0) xs \<Longrightarrow> sorted_wrt (\<lambda>a b. c a b \<le> 0) (insertBy c x xs)"
proof (induction xs)
  case Nil
  then show ?case by simp
next
  case (Cons y ys)
  show ?case
  proof (cases "c x y \<le> 0")
    case True
    then have "\<forall>z\<in>set ys. c x z \<le> 0" using Cons.prems trans by auto
    with True Cons.prems show ?thesis by simp
  next
    case False
    then have "c y x \<le> 0" using total[of x y] by simp
    with False Cons show ?thesis by (auto simp: set_insertBy)
  qed
qed

lemma sorted_sortBy:
  assumes total: "\<And>a b. c a b \<le> 0 \<or> c b a \<le> 0"
    and trans: "\<And>a b d. c a b \<le> 0 \<Longrightarrow> c b d \<le> 0 \<Longrightarrow> c a d \<le> 0"
  shows "sorted_wrt (\<lambda>a b. c a b \<le> 0) (sortBy c xs)"
proof (induction xs)
  case Nil
  then show ?case by simp
next
  case (Cons x xs)
  then show ?case using sorted_insertBy[of c, OF total trans] by simp
qed

lemma sortBy_sorted_id:
  "sorted_wrt (\<lambda>a b. c a b \<le> 0) xs \<Longrightarrow> sortBy c xs = xs"
proof (induction xs)
  case Nil
  then show ?case by simp
next
  case (Cons x xs)
  then have "sortBy c xs = xs" by simp
  moreover have "insertBy c x xs = x # xs" using Cons.prems by (cases xs) auto
  ultimately show ?case by simp
qed

text \<open>A sorted arrangement of a list is unique when the comparison separates its elements.\<close>

lemma sorted_perm_unique:
  assumes anti: "\<And>a b. a \<in> set xs \<Longrightarrow> b \<in> set xs \<Longrightarrow> c a b \<le> 0 \<Longrightarrow> c b a \<le> 0 \<Longrightarrow> a = b"
    and "mset xs = mset ys"
    and "sorted_wrt (\<lambda>a b. c a b \<le> 0) xs" and "sorted_wrt (\<lambda>a b. c a b \<le> 0) ys"
  shows "xs = ys"
  using assms
proof (induction xs arbitrary: ys)
  case Nil
  then show ?case by simp
next
  case (Cons x xs)
  then obtain y ys' where ys: "ys = y # ys'" by (cases ys) auto
  have sets: "set (x # xs) = set (y # ys')" using Cons.prems(2) ys by (metis set_mset_mset)
  have xy: "x = y"
  proof (rule ccontr)
    assume ne: "x \<noteq> y"
    then have "x \<in> set ys'" and "y \<in> set xs" using sets by auto
    then have "c y x \<le> 0" and "c x y \<le> 0" using Cons.prems(3,4) ys by auto
    moreover have "x \<in> set (x # xs)" "y \<in> set (x # xs)" using sets by auto
    ultimately show False using Cons.prems(1) ne by blast
  qed
  have "xs = ys'"
  proof (rule Cons.IH)
    show "mset xs = mset ys'" using Cons.prems(2) ys xy by simp
    show "sorted_wrt (\<lambda>a b. c a b \<le> 0) xs" using Cons.prems(3) by simp
    show "sorted_wrt (\<lambda>a b. c a b \<le> 0) ys'" using Cons.prems(4) ys by simp
    show "\<And>a b. a \<in> set xs \<Longrightarrow> b \<in> set xs \<Longrightarrow> c a b \<le> 0 \<Longrightarrow> c b a \<le> 0 \<Longrightarrow> a = b"
      using Cons.prems(1) by simp
  qed
  with xy ys show ?case by simp
qed

subsection \<open>The decoration\<close>

lemma mapIndexed_length: "mapIndexed f i xs = Inr ys \<Longrightarrow> length ys = length xs"
  by (induction xs arbitrary: i ys) (auto split: sum.splits)

lemma mapIndexed_nth:
  "mapIndexed f i xs = Inr ys \<Longrightarrow> k < length xs \<Longrightarrow> f (xs ! k) (i + k) = Inr (ys ! k)"
proof (induction xs arbitrary: i ys k)
  case Nil
  then show ?case by simp
next
  case (Cons x xs)
  then obtain y ys' where y: "f x i = Inr y" and r: "mapIndexed f (Suc i) xs = Inr ys'"
    and ys: "ys = y # ys'" by (auto split: sum.splits)
  show ?case
  proof (cases k)
    case 0
    with y ys show ?thesis by simp
  next
    case (Suc k')
    with Cons.prems have "k' < length xs" by simp
    from Cons.IH[OF r this] Suc ys show ?thesis by simp
  qed
qed

lemma mapIndexed_Inl:
  "mapIndexed f i xs = Inl e \<Longrightarrow> \<exists>k<length xs. f (xs ! k) (i + k) = Inl e"
proof (induction xs arbitrary: i)
  case Nil
  then show ?case by simp
next
  case (Cons x xs)
  show ?case
  proof (cases "f x i")
    case (Inl e')
    with Cons.prems have "f ((x # xs) ! 0) (i + 0) = Inl e" by simp
    then show ?thesis by blast
  next
    case (Inr y)
    with Cons.prems have "mapIndexed f (Suc i) xs = Inl e" by (auto split: sum.splits)
    from Cons.IH[OF this] obtain k where "k < length xs" "f (xs ! k) (Suc i + k) = Inl e" by blast
    then have "Suc k < length (x # xs) \<and> f ((x # xs) ! Suc k) (i + Suc k) = Inl e" by simp
    then show ?thesis by blast
  qed
qed

lemma mapIndexed_total:
  "(\<And>k. k < length xs \<Longrightarrow> \<exists>y. f (xs ! k) (i + k) = Inr y) \<Longrightarrow> \<exists>ys. mapIndexed f i xs = Inr ys"
  using mapIndexed_Inl[of f i xs] by (cases "mapIndexed f i xs") fastforce+

lemma decorate_A_spec:
  "decorate_A newURL enc t i =
     (case resolveTabUrl_A newURL enc t of
        Inl e \<Rightarrow> Inl e
      | Inr u \<Rightarrow> Inr (spec_decoration hostKey_A t i u))"
  by (simp add: decorate_A_def spec_decoration_def split: sum.splits)

lemma decorate_B_spec:
  "decorate_B newURL enc t i =
     (case resolveTabUrl_B newURL enc t of
        Inl e \<Rightarrow> Inl e
      | Inr u \<Rightarrow> Inr (spec_decoration cleanHost t i u))"
  by (simp add: decorate_B_def spec_decoration_def split: sum.splits)

lemma mapIndexed_intro:
  "length ys = length xs \<Longrightarrow> (\<And>k. k < length xs \<Longrightarrow> f (xs ! k) (i + k) = Inr (ys ! k)) \<Longrightarrow>
   mapIndexed f i xs = Inr ys"
proof (induction xs arbitrary: i ys)
  case Nil
  then show ?case by simp
next
  case (Cons x xs)
  then obtain y ys' where ys: "ys = y # ys'" by (cases ys) auto
  have h: "f x i = Inr y" using Cons.prems(2)[of 0] ys by simp
  have "mapIndexed f (Suc i) xs = Inr ys'"
  proof (rule Cons.IH)
    show "length ys' = length xs" using Cons.prems(1) ys by simp
    show "f (xs ! k) (Suc i + k) = Inr (ys' ! k)" if "k < length xs" for k
      using Cons.prems(2)[of "Suc k"] that ys by simp
  qed
  with h ys show ?case by simp
qed

text \<open>A decorating callback in the shape both files have.\<close>

lemma decorated_nth:
  assumes F: "\<And>t i. f t i = (case resolve t of Inl e \<Rightarrow> Inl e | Inr u \<Rightarrow> Inr (spec_decoration bucket t i u))"
    and m: "mapIndexed f 0 tabs = Inr ds" and k: "k < length tabs"
  shows "\<exists>u. resolve (tabs ! k) = Inr u \<and> ds ! k = spec_decoration bucket (tabs ! k) k u"
proof -
  have "f (tabs ! k) k = Inr (ds ! k)" using mapIndexed_nth[OF m k] by simp
  then show ?thesis using F[of "tabs ! k" k] by (cases "resolve (tabs ! k)") auto
qed

lemma decorated_index:
  assumes F: "\<And>t i. f t i = (case resolve t of Inl e \<Rightarrow> Inl e | Inr u \<Rightarrow> Inr (spec_decoration bucket t i u))"
    and m: "mapIndexed f 0 tabs = Inr ds"
  shows "map originalIndex ds = [0..<length tabs]"
proof (rule nth_equalityI)
  show "length (map originalIndex ds) = length [0..<length tabs]"
    using mapIndexed_length[OF m] by simp
next
  fix k assume "k < length (map originalIndex ds)"
  then have k: "k < length tabs" using mapIndexed_length[OF m] by simp
  from decorated_nth[OF F m k] have "originalIndex (ds ! k) = k"
    by (auto simp: spec_decoration_def)
  with k mapIndexed_length[OF m] show "map originalIndex ds ! k = [0..<length tabs] ! k" by simp
qed

lemma decorated_ids:
  assumes F: "\<And>t i. f t i = (case resolve t of Inl e \<Rightarrow> Inl e | Inr u \<Rightarrow> Inr (spec_decoration bucket t i u))"
    and m: "mapIndexed f 0 tabs = Inr ds"
  shows "map dec_id ds = map tab_id tabs"
proof (rule nth_equalityI)
  show "length (map dec_id ds) = length (map tab_id tabs)"
    using mapIndexed_length[OF m] by simp
next
  fix k assume "k < length (map dec_id ds)"
  then have k: "k < length tabs" using mapIndexed_length[OF m] by simp
  from decorated_nth[OF F m k] have "dec_id (ds ! k) = tab_id (tabs ! k)"
    by (auto simp: spec_decoration_def)
  with k mapIndexed_length[OF m] show "map dec_id ds ! k = map tab_id tabs ! k" by simp
qed

lemma spec_precedes_le: "spec_precedes cmp a b \<Longrightarrow> compareDecorated cmp a b \<le> 0"
  unfolding spec_precedes_def compareDecorated_le_iff by auto

lemma le_imp_spec_precedes:
  "compareDecorated cmp a b \<le> 0 \<Longrightarrow> originalIndex a \<noteq> originalIndex b \<Longrightarrow> spec_precedes cmp a b"
  unfolding spec_precedes_def compareDecorated_le_iff by auto

lemma sorted_strict:
  "sorted_wrt (\<lambda>a b. compareDecorated cmp a b \<le> 0) xs \<Longrightarrow> distinct (map originalIndex xs) \<Longrightarrow>
   sorted_wrt (spec_precedes cmp) xs"
  by (induction xs) (auto intro: le_imp_spec_precedes)

lemma sortBy_compareDecorated_sorted:
  assumes "collation cmp"
  shows "sorted_wrt (\<lambda>a b. compareDecorated cmp a b \<le> 0) (sortBy (compareDecorated cmp) ds)"
  by (rule sorted_sortBy) (use compareDecorated_total[OF assms] compareDecorated_trans[OF assms] in blast)+

lemma distinct_index_sortBy:
  assumes "distinct (map originalIndex ds)"
  shows "distinct (map originalIndex (sortBy c ds))"
proof -
  have "mset (map originalIndex (sortBy c ds)) = mset (map originalIndex ds)"
    by (simp add: mset_sortBy)
  then show ?thesis using assms by (metis mset_eq_imp_distinct_iff)
qed

lemma scope_order_generic:
  assumes F: "\<And>t i. f t i = (case resolve t of Inl e \<Rightarrow> Inl e | Inr u \<Rightarrow> Inr (spec_decoration bucket t i u))"
    and c: "collation cmp" and m: "mapIndexed f 0 tabs = Inr ds"
  shows "spec_scope_order resolve bucket cmp tabs (sortBy (compareDecorated cmp) ds)"
proof -
  let ?out = "sortBy (compareDecorated cmp) ds"
  have len: "length ?out = length tabs"
    using mapIndexed_length[OF m] by (simp add: length_sortBy)
  have each: "\<exists>u. resolve (tabs ! i) = Inr u \<and> spec_decoration bucket (tabs ! i) i u \<in> set ?out"
    if "i < length tabs" for i
  proof -
    from decorated_nth[OF F m that] obtain u where
      u: "resolve (tabs ! i) = Inr u" "ds ! i = spec_decoration bucket (tabs ! i) i u" by blast
    have "ds ! i \<in> set ds" using that mapIndexed_length[OF m] by simp
    with u show ?thesis by (auto simp: set_sortBy)
  qed
  have "distinct (map originalIndex ds)" using decorated_index[OF F m] by simp
  then have "distinct (map originalIndex ?out)" by (rule distinct_index_sortBy)
  with sortBy_compareDecorated_sorted[OF c] have "sorted_wrt (spec_precedes cmp) ?out"
    by (rule sorted_strict)
  with len each show ?thesis unfolding spec_scope_order_def by blast
qed

lemma mset_of_distinct_subset:
  assumes "distinct xs" "set xs \<subseteq> set ys" "length ys = length xs"
  shows "mset ys = mset xs"
proof -
  have "card (set xs) = length xs" using assms(1) by (simp add: distinct_card)
  moreover have "card (set xs) \<le> card (set ys)" using assms(2) by (simp add: card_mono)
  moreover have "card (set ys) \<le> length ys" by (rule card_length)
  ultimately have cy: "card (set ys) = length ys" and ce: "card (set xs) = card (set ys)"
    using assms(3) by simp_all
  from cy have dy: "distinct ys" by (rule card_distinct)
  have "set xs = set ys" using assms(2) ce by (simp add: card_subset_eq)
  with dy assms(1) show ?thesis by (simp add: set_eq_iff_mset_eq_distinct)
qed

lemma compareDecorated_antisym:
  assumes c: "collation cmp"
    and ab: "compareDecorated cmp a b \<le> 0" and ba: "compareDecorated cmp b a \<le> 0"
  shows "originalIndex a = originalIndex b"
proof -
  have h: "(cmp (hostKey a) (hostKey b) < 0) = (0 < cmp (hostKey b) (hostKey a))"
    and k: "(cmp (sortKey a) (sortKey b) < 0) = (0 < cmp (sortKey b) (sortKey a))"
    and h': "(cmp (hostKey b) (hostKey a) < 0) = (0 < cmp (hostKey a) (hostKey b))"
    and k': "(cmp (sortKey b) (sortKey a) < 0) = (0 < cmp (sortKey a) (sortKey b))"
    using collation_flip[OF c] by blast+
  from ab ba h k h' k' show ?thesis unfolding compareDecorated_le_iff by auto
qed

lemma scope_order_unique:
  assumes c: "collation cmp"
    and A: "spec_scope_order resolve bucket cmp tabs out"
    and B: "spec_scope_order resolve bucket cmp tabs out'"
  shows "out = out'"
proof -
  define d where "d = (\<lambda>i. spec_decoration bucket (tabs ! i) i (projr (resolve (tabs ! i))))"
  define D where "D = map d [0..<length tabs]"
  have oi: "originalIndex (d i) = i" for i by (simp add: d_def spec_decoration_def)
  have "map originalIndex D = map (\<lambda>i. i) [0..<length tabs]"
    unfolding D_def by (simp add: oi o_def)
  then have "distinct (map originalIndex D)" by simp
  then have dD: "distinct D" by (rule distinct_map[THEN iffD1, THEN conjunct1])
  have lD: "length D = length tabs" by (simp add: D_def)
  have sD: "x \<in> set D \<Longrightarrow> \<exists>i<length tabs. x = d i" for x
    unfolding D_def by auto
  have sub: "set D \<subseteq> set xs" if "spec_scope_order resolve bucket cmp tabs xs" for xs
  proof
    fix x assume "x \<in> set D"
    then obtain i where i: "i < length tabs" "x = d i" using sD by blast
    with that obtain u where "resolve (tabs ! i) = Inr u"
      "spec_decoration bucket (tabs ! i) i u \<in> set xs"
      unfolding spec_scope_order_def by blast
    with i show "x \<in> set xs" by (simp add: d_def)
  qed
  have m: "mset xs = mset D" if "spec_scope_order resolve bucket cmp tabs xs" for xs
  proof -
    have "length xs = length D" using that lD unfolding spec_scope_order_def by simp
    with dD sub[OF that] show ?thesis by (rule mset_of_distinct_subset)
  qed
  have s: "sorted_wrt (\<lambda>a b. compareDecorated cmp a b \<le> 0) xs"
    if "spec_scope_order resolve bucket cmp tabs xs" for xs
  proof -
    from that have "sorted_wrt (spec_precedes cmp) xs" unfolding spec_scope_order_def by blast
    then show ?thesis by (rule sorted_wrt_mono_rel[rotated]) (rule spec_precedes_le)
  qed
  have anti: "a = b" if "a \<in> set out" "b \<in> set out"
    "compareDecorated cmp a b \<le> 0" "compareDecorated cmp b a \<le> 0" for a b
  proof -
    have "set out = set D" using m[OF A] by (rule mset_eq_setD)
    with that sD obtain i j where ij: "a = d i" "b = d j" by blast
    have "originalIndex a = originalIndex b" using compareDecorated_antisym[OF c that(3,4)] .
    with ij oi have "i = j" by simp
    with ij show ?thesis by simp
  qed
  show ?thesis
  proof (rule sorted_perm_unique[where c = "compareDecorated cmp"])
    show "mset out = mset out'" using m[OF A] m[OF B] by simp
    show "sorted_wrt (\<lambda>a b. compareDecorated cmp a b \<le> 0) out" by (rule s[OF A])
    show "sorted_wrt (\<lambda>a b. compareDecorated cmp a b \<le> 0) out'" by (rule s[OF B])
    show "\<And>a b. a \<in> set out \<Longrightarrow> b \<in> set out \<Longrightarrow> compareDecorated cmp a b \<le> 0 \<Longrightarrow>
            compareDecorated cmp b a \<le> 0 \<Longrightarrow> a = b" by (rule anti)
  qed
qed

lemma sortedIds_generic:
  assumes F: "\<And>t i. f t i = (case resolve t of Inl e \<Rightarrow> Inl e | Inr u \<Rightarrow> Inr (spec_decoration bucket t i u))"
    and m: "mapIndexed f 0 tabs = Inr ds"
  shows "mset (map dec_id (sortBy c ds)) = mset (map tab_id tabs)"
proof -
  have "mset (map dec_id (sortBy c ds)) = mset (map dec_id ds)" by (simp add: mset_sortBy)
  then show ?thesis using decorated_ids[OF F m] by simp
qed

lemma resorted_generic:
  assumes F: "\<And>t i. f t i = (case resolve t of Inl e \<Rightarrow> Inl e | Inr u \<Rightarrow> Inr (spec_decoration bucket t i u))"
    and c: "collation cmp" and m: "mapIndexed f 0 tabs = Inr ds"
  defines "out \<equiv> sortBy (compareDecorated cmp) ds"
  defines "tabs' \<equiv> map (\<lambda>d. tabs ! originalIndex d) out"
  shows "\<exists>ds'. mapIndexed f 0 tabs' = Inr ds' \<and> sortBy (compareDecorated cmp) ds' = ds' \<and>
           map dec_id ds' = map dec_id out \<and> map tab_id tabs' = map dec_id out"
proof -
  let ?ds' = "map (\<lambda>k. (out ! k)\<lparr>originalIndex := k\<rparr>) [0..<length out]"
  have n: "length ds = length tabs" using mapIndexed_length[OF m] .
  have lo: "length out = length tabs" using n by (simp add: out_def length_sortBy)
  have idx: "map originalIndex ds = [0..<length tabs]" using decorated_index[OF F m] .
  have inds: "originalIndex d < length tabs \<and> d = ds ! originalIndex d" if "d \<in> set ds" for d
  proof -
    from that obtain j where j: "j < length ds" "d = ds ! j" by (metis in_set_conv_nth)
    have "originalIndex (ds ! j) = map originalIndex ds ! j" using j by simp
    also have "\<dots> = j" using idx j n by simp
    finally show ?thesis using j n by simp
  qed
  have src: "\<exists>u. resolve (tabs ! originalIndex (out ! k)) = Inr u \<and>
                 out ! k = spec_decoration bucket (tabs ! originalIndex (out ! k)) (originalIndex (out ! k)) u"
    if "k < length out" for k
  proof -
    have "out ! k \<in> set ds" using that by (metis nth_mem out_def set_sortBy)
    from inds[OF this] decorated_nth[OF F m, of "originalIndex (out ! k)"] show ?thesis by auto
  qed
  have step: "f (tabs' ! k) (0 + k) = Inr (?ds' ! k)" if "k < length tabs'" for k
  proof -
    have k: "k < length out" using that by (simp add: tabs'_def)
    from src[OF k] obtain u where u: "resolve (tabs ! originalIndex (out ! k)) = Inr u"
      "out ! k = spec_decoration bucket (tabs ! originalIndex (out ! k)) (originalIndex (out ! k)) u"
      by blast
    have "(out ! k)\<lparr>originalIndex := k\<rparr> = spec_decoration bucket (tabs ! originalIndex (out ! k)) k u"
      by (subst u(2)) (simp add: spec_decoration_def)
    then show ?thesis using k u(1) F[of "tabs' ! k" k] by (simp add: tabs'_def)
  qed
  have m': "mapIndexed f 0 tabs' = Inr ?ds'"
    by (rule mapIndexed_intro) (use step in \<open>simp_all add: tabs'_def\<close>)
  have so: "sorted_wrt (spec_precedes cmp) out"
    using scope_order_generic[OF F c m] unfolding spec_scope_order_def out_def by blast
  have "sorted_wrt (\<lambda>a b. compareDecorated cmp a b \<le> 0) ?ds'"
    unfolding sorted_wrt_iff_nth_less
  proof (intro allI impI)
    fix i j assume ij: "i < j" "j < length ?ds'"
    then have "spec_precedes cmp (out ! i) (out ! j)"
      using so by (simp add: sorted_wrt_iff_nth_less)
    then show "compareDecorated cmp (?ds' ! i) (?ds' ! j) \<le> 0"
      using ij unfolding spec_precedes_def compareDecorated_le_iff by auto
  qed
  then have id: "sortBy (compareDecorated cmp) ?ds' = ?ds'" by (rule sortBy_sorted_id)
  have ids: "map dec_id ?ds' = map dec_id out"
    by (rule nth_equalityI) simp_all
  have "map tab_id tabs' = map dec_id out"
  proof (rule nth_equalityI)
    show "length (map tab_id tabs') = length (map dec_id out)" by (simp add: tabs'_def)
  next
    fix k assume "k < length (map tab_id tabs')"
    then have k: "k < length out" by (simp add: tabs'_def)
    from src[OF k] have "dec_id (out ! k) = tab_id (tabs ! originalIndex (out ! k))"
      by (metis decorated.select_convs(1) spec_decoration_def)
    with k show "map tab_id tabs' ! k = map dec_id out ! k" by (simp add: tabs'_def)
  qed
  with m' id ids show ?thesis by blast
qed

subsection \<open>The requests of the browser\<close>

lemma mset_filter_disjoint:
  "(\<And>t. \<not> (P t \<and> Q t)) \<Longrightarrow>
   mset (filter P w) + mset (filter Q w) = mset (filter (\<lambda>t. P t \<or> Q t) w)"
  by (induction w) auto

lemma mset_block:
  "distinct xs \<Longrightarrow>
   mset (concat (map (\<lambda>x. filter (\<lambda>t. f t = x) w) xs)) = mset (filter (\<lambda>t. f t \<in> set xs) w)"
proof (induction xs)
  case Nil
  then show ?case by simp
next
  case (Cons x xs)
  have "mset (filter (\<lambda>t. f t = x) w) + mset (filter (\<lambda>t. f t \<in> set xs) w) =
        mset (filter (\<lambda>t. f t = x \<or> f t \<in> set xs) w)"
    by (rule mset_filter_disjoint) (use Cons.prems in auto)
  with Cons show ?case by simp
qed

lemma mset_relocate:
  "mset (take i (filter (\<lambda>t. \<not> P t) w) @ filter P w @ drop i (filter (\<lambda>t. \<not> P t) w)) = mset w"
proof -
  have "mset (take i (filter (\<lambda>t. \<not> P t) w)) + mset (drop i (filter (\<lambda>t. \<not> P t) w)) =
        mset (filter (\<lambda>t. \<not> P t) w)"
    by (metis append_take_drop_id mset_append)
  then show ?thesis by (simp add: ac_simps) 
qed

lemma tabs_move_cases:
  assumes "tabs_move ids i h = (r, h')"
  shows "(r = Some HostRejected \<and> h' = h) \<or>
         (r = None \<and> knownTabs h ids \<and> requests h' = requests h @ [TabsMove ids i] \<and>
          tabGroups h' = tabGroups h \<and> mset (window h') = mset (window h))"
proof (cases "knownTabs h ids")
  case False
  with assms show ?thesis by (simp add: tabs_move_def)
next
  case True
  let ?rest = "filter (\<lambda>t. tab_id t \<notin> set ids) (window h)"
  let ?moved = "concat (map (\<lambda>x. filter (\<lambda>t. tab_id t = x) (window h)) (remdups ids))"
  have m: "mset ?moved = mset (filter (\<lambda>t. tab_id t \<in> set ids) (window h))"
    using mset_block[of "remdups ids" tab_id "window h"] by simp
  have "mset (take i ?rest @ ?moved @ drop i ?rest) = mset (take i ?rest) + mset (drop i ?rest) + mset ?moved"
    by simp
  also have "mset (take i ?rest) + mset (drop i ?rest) = mset ?rest"
    by (metis append_take_drop_id mset_append)
  also have "mset ?rest + mset ?moved = mset (window h)"
    using m by simp
  finally have "mset (take i ?rest @ ?moved @ drop i ?rest) = mset (window h)" .
  with True assms show ?thesis by (auto simp: tabs_move_def Let_def)
qed

lemma tabs_group_cases:
  assumes "tabs_group g ids h = (r, h')"
  shows "(r = Some HostRejected \<and> h' = h) \<or>
         (r = None \<and> requests h' = requests h @ [TabsGroup g ids] \<and>
          tabGroups h' = tabGroups h \<and>
          window h' = map (\<lambda>t. if tab_id t \<in> set ids then t\<lparr>groupId := g\<rparr> else t) (window h))"
  using assms by (auto simp: tabs_group_def split: if_splits)

lemma map_tab_id_regroup:
  "map tab_id (map (\<lambda>t. if P t then t\<lparr>groupId := g\<rparr> else t) w) = map tab_id w"
  by (induction w) auto

text \<open>What a scope sorter does to the browser, for either file.\<close>

lemma scope_effect:
  assumes def: "\<And>tabs s g h. scope tabs s g h =
      (if tabs = [] then (None, h)
       else case srt tabs of
              Inl e \<Rightarrow> (Some e, h)
            | Inr ids \<Rightarrow> andThen (tabs_move ids s h)
                          (\<lambda>h1. if g > - 1 then tabs_group g ids h1 else (None, h1)))"
    and run: "scope tabs s g h = (r, h')"
  shows "\<exists>rs. requests h' = requests h @ rs \<and>
              (\<forall>ids i. TabsMove ids i \<in> set rs \<longrightarrow> srt tabs = Inr ids \<and> i = s) \<and>
              (tabs \<noteq> [] \<and> r = None \<longrightarrow> (\<exists>ids. srt tabs = Inr ids \<and> TabsMove ids s \<in> set rs)) \<and>
              mset (map tab_id (window h')) = mset (map tab_id (window h)) \<and>
              tabGroups h' = tabGroups h"
proof (cases "tabs = []")
  case True
  with run def[of tabs s g h] show ?thesis by simp
next
  case ne: False
  show ?thesis
  proof (cases "srt tabs")
    case (Inl e)
    with ne run def[of tabs s g h] have "r = Some e" "h' = h" by simp_all
    with Inl show ?thesis by simp
  next
    case (Inr ids)
    obtain r1 h1 where mv: "tabs_move ids s h = (r1, h1)" by (cases "tabs_move ids s h")
    from tabs_move_cases[OF mv] show ?thesis
    proof
      assume "r1 = Some HostRejected \<and> h1 = h"
      with ne Inr mv run def[of tabs s g h] have "r = Some HostRejected" "h' = h"
        by (simp_all add: andThen_def)
      then show ?thesis by simp
    next
      assume ok: "r1 = None \<and> knownTabs h ids \<and> requests h1 = requests h @ [TabsMove ids s] \<and>
          tabGroups h1 = tabGroups h \<and> mset (window h1) = mset (window h)"
      then have ids1: "mset (map tab_id (window h1)) = mset (map tab_id (window h))"
        by (metis mset_map)
      show ?thesis
      proof (cases "g > - 1")
        case False
        with ne Inr mv run ok def[of tabs s g h] have "r = None" "h' = h1"
          by (simp_all add: andThen_def)
        with ok ids1 Inr show ?thesis by simp
      next
        case True
        with ne Inr mv run ok def[of tabs s g h] have g: "tabs_group g ids h1 = (r, h')"
          by (simp add: andThen_def)
        from tabs_group_cases[OF g] show ?thesis
        proof
          assume "r = Some HostRejected \<and> h' = h1"
          with ok ids1 Inr show ?thesis by simp
        next
          assume g2: "r = None \<and> requests h' = requests h1 @ [TabsGroup g ids] \<and>
            tabGroups h' = tabGroups h1 \<and>
            window h' = map (\<lambda>t. if tab_id t \<in> set ids then t\<lparr>groupId := g\<rparr> else t) (window h1)"
          then have "map tab_id (window h') = map tab_id (window h1)"
            by (simp only: map_tab_id_regroup)
          then have "mset (map tab_id (window h')) = mset (map tab_id (window h))"
            using ids1 by simp
          moreover have "requests h' = requests h @ [TabsMove ids s, TabsGroup g ids]"
            using g2 ok by simp
          moreover have "tabGroups h' = tabGroups h" using g2 ok by simp
          ultimately show ?thesis using Inr by simp
        qed
      qed
    qed
  qed
qed

lemma sortedIds_A_mset:
  assumes "sortedIds_A newURL enc cmp tabs = Inr ids"
  shows "mset ids = mset (map tab_id tabs)"
proof -
  from assms obtain ds where m: "mapIndexed (decorate_A newURL enc) 0 tabs = Inr ds"
    and ids: "ids = map dec_id (sortBy (compareDecorated cmp) ds)"
    by (auto simp: sortedIds_A_def sortedDecorated_A_def split: sum.splits)
  show ?thesis unfolding ids by (rule sortedIds_generic[OF decorate_A_spec m])
qed

lemma sortedIds_B_mset:
  assumes "sortedIds_B newURL enc cmp tabs = Inr ids"
  shows "mset ids = mset (map tab_id tabs)"
proof -
  from assms obtain ds where m: "mapIndexed (decorate_B newURL enc) 0 tabs = Inr ds"
    and ids: "ids = map dec_id (sortBy (compareDecorated cmp) ds)"
    by (auto simp: sortedIds_B_def sortedDecorated_B_def split: sum.splits)
  show ?thesis unfolding ids by (rule sortedIds_generic[OF decorate_B_spec m])
qed

lemma sortTabsScope_A_effect:
  assumes "sortTabsScope_A newURL enc cmp tabs s g h = (r, h')"
  shows "\<exists>rs. requests h' = requests h @ rs \<and>
              (\<forall>ids i. TabsMove ids i \<in> set rs \<longrightarrow> sortedIds_A newURL enc cmp tabs = Inr ids \<and> i = s) \<and>
              (tabs \<noteq> [] \<and> r = None \<longrightarrow> (\<exists>ids. sortedIds_A newURL enc cmp tabs = Inr ids \<and> TabsMove ids s \<in> set rs)) \<and>
              mset (map tab_id (window h')) = mset (map tab_id (window h)) \<and>
              tabGroups h' = tabGroups h"
  by (rule scope_effect[where scope = "sortTabsScope_A newURL enc cmp", OF _ assms])
     (simp add: sortTabsScope_A_def)

lemma sortTabsScope_B_effect:
  assumes "sortTabsScope_B newURL enc cmp tabs s g h = (r, h')"
  shows "\<exists>rs. requests h' = requests h @ rs \<and>
              (\<forall>ids i. TabsMove ids i \<in> set rs \<longrightarrow> sortedIds_B newURL enc cmp tabs = Inr ids \<and> i = s) \<and>
              (tabs \<noteq> [] \<and> r = None \<longrightarrow> (\<exists>ids. sortedIds_B newURL enc cmp tabs = Inr ids \<and> TabsMove ids s \<in> set rs)) \<and>
              mset (map tab_id (window h')) = mset (map tab_id (window h)) \<and>
              tabGroups h' = tabGroups h"
  by (rule scope_effect[where scope = "sortTabsScope_B newURL enc cmp", OF _ assms])
     (simp add: sortTabsScope_B_def)

text \<open>
  C6. The identities in the move request that the scope sorter issues are, as a multiset, the
  identities of the tabs it was given: none is added, lost or repeated. This holds for the
  value of \<open>sortedIds\<close> in both files and for every move request either \<open>sortTabsScope\<close> adds
  to the browser's requests; the identities of the window's tabs are the same afterwards.
\<close>

theorem move_request_keeps_identities:
  "(\<forall>ids. sortedIds_A newURL enc cmp tabs = Inr ids \<longrightarrow> mset ids = mset (map tab_id tabs)) \<and>
   (\<forall>ids. sortedIds_B newURL enc cmp tabs = Inr ids \<longrightarrow> mset ids = mset (map tab_id tabs)) \<and>
   (\<forall>r h'. sortTabsScope_A newURL enc cmp tabs s g h = (r, h') \<longrightarrow>
      (\<exists>rs. requests h' = requests h @ rs \<and>
            (\<forall>ids i. TabsMove ids i \<in> set rs \<longrightarrow> mset ids = mset (map tab_id tabs)) \<and>
            (tabs \<noteq> [] \<and> r = None \<longrightarrow> (\<exists>ids. TabsMove ids s \<in> set rs)) \<and>
            mset (map tab_id (window h')) = mset (map tab_id (window h)))) \<and>
   (\<forall>r h'. sortTabsScope_B newURL enc cmp tabs s g h = (r, h') \<longrightarrow>
      (\<exists>rs. requests h' = requests h @ rs \<and>
            (\<forall>ids i. TabsMove ids i \<in> set rs \<longrightarrow> mset ids = mset (map tab_id tabs)) \<and>
            (tabs \<noteq> [] \<and> r = None \<longrightarrow> (\<exists>ids. TabsMove ids s \<in> set rs)) \<and>
            mset (map tab_id (window h')) = mset (map tab_id (window h))))"
proof (intro conjI allI impI)
  fix ids assume "sortedIds_A newURL enc cmp tabs = Inr ids"
  then show "mset ids = mset (map tab_id tabs)" by (rule sortedIds_A_mset)
next
  fix ids assume "sortedIds_B newURL enc cmp tabs = Inr ids"
  then show "mset ids = mset (map tab_id tabs)" by (rule sortedIds_B_mset)
next
  fix r h' assume "sortTabsScope_A newURL enc cmp tabs s g h = (r, h')"
  from sortTabsScope_A_effect[OF this] obtain rs where
    rs: "requests h' = requests h @ rs"
      "\<forall>ids i. TabsMove ids i \<in> set rs \<longrightarrow> sortedIds_A newURL enc cmp tabs = Inr ids \<and> i = s"
      "tabs \<noteq> [] \<and> r = None \<longrightarrow> (\<exists>ids. sortedIds_A newURL enc cmp tabs = Inr ids \<and> TabsMove ids s \<in> set rs)"
      "mset (map tab_id (window h')) = mset (map tab_id (window h))" by blast
  from rs(2) have "\<forall>ids i. TabsMove ids i \<in> set rs \<longrightarrow> mset ids = mset (map tab_id tabs)"
    using sortedIds_A_mset by blast
  moreover from rs(3) have "tabs \<noteq> [] \<and> r = None \<longrightarrow> (\<exists>ids. TabsMove ids s \<in> set rs)" by blast
  ultimately show "\<exists>rs. requests h' = requests h @ rs \<and>
            (\<forall>ids i. TabsMove ids i \<in> set rs \<longrightarrow> mset ids = mset (map tab_id tabs)) \<and>
            (tabs \<noteq> [] \<and> r = None \<longrightarrow> (\<exists>ids. TabsMove ids s \<in> set rs)) \<and>
            mset (map tab_id (window h')) = mset (map tab_id (window h))"
    using rs(1,4) by blast
next
  fix r h' assume "sortTabsScope_B newURL enc cmp tabs s g h = (r, h')"
  from sortTabsScope_B_effect[OF this] obtain rs where
    rs: "requests h' = requests h @ rs"
      "\<forall>ids i. TabsMove ids i \<in> set rs \<longrightarrow> sortedIds_B newURL enc cmp tabs = Inr ids \<and> i = s"
      "tabs \<noteq> [] \<and> r = None \<longrightarrow> (\<exists>ids. sortedIds_B newURL enc cmp tabs = Inr ids \<and> TabsMove ids s \<in> set rs)"
      "mset (map tab_id (window h')) = mset (map tab_id (window h))" by blast
  from rs(2) have "\<forall>ids i. TabsMove ids i \<in> set rs \<longrightarrow> mset ids = mset (map tab_id tabs)"
    using sortedIds_B_mset by blast
  moreover from rs(3) have "tabs \<noteq> [] \<and> r = None \<longrightarrow> (\<exists>ids. TabsMove ids s \<in> set rs)" by blast
  ultimately show "\<exists>rs. requests h' = requests h @ rs \<and>
            (\<forall>ids i. TabsMove ids i \<in> set rs \<longrightarrow> mset ids = mset (map tab_id tabs)) \<and>
            (tabs \<noteq> [] \<and> r = None \<longrightarrow> (\<exists>ids. TabsMove ids s \<in> set rs)) \<and>
            mset (map tab_id (window h')) = mset (map tab_id (window h))"
    using rs(1,4) by blast
qed

theorem move_request_keeps_identities_witness:
  "sortedIds_A newURL_ref encodeURIComponent localeCompare_ref
     [\<lparr>tab_id = 1, url = ''https://b.example/'', pendingUrl = None, index = 0, pinned = False, groupId = - 1\<rparr>,
      \<lparr>tab_id = 2, url = ''https://a.example/'', pendingUrl = None, index = 1, pinned = False, groupId = - 1\<rparr>]
     = Inr [2, 1] \<and>
   sortedIds_B newURL_ref encodeURIComponent localeCompare_ref
     [\<lparr>tab_id = 1, url = ''https://b.example/'', pendingUrl = None, index = 0, pinned = False, groupId = - 1\<rparr>,
      \<lparr>tab_id = 2, url = ''https://a.example/'', pendingUrl = None, index = 1, pinned = False, groupId = - 1\<rparr>]
     = Inr [2, 1] \<and>
   sortTabsScope_A newURL_ref encodeURIComponent localeCompare_ref
     [\<lparr>tab_id = 1, url = ''https://b.example/'', pendingUrl = None, index = 0, pinned = False, groupId = - 1\<rparr>,
      \<lparr>tab_id = 2, url = ''https://a.example/'', pendingUrl = None, index = 1, pinned = False, groupId = - 1\<rparr>]
     0 (- 1)
     \<lparr>window =
        [\<lparr>tab_id = 1, url = ''https://b.example/'', pendingUrl = None, index = 0, pinned = False, groupId = - 1\<rparr>,
         \<lparr>tab_id = 2, url = ''https://a.example/'', pendingUrl = None, index = 1, pinned = False, groupId = - 1\<rparr>],
      tabGroups = [], requests = []\<rparr>
     = (None,
        \<lparr>window =
           [\<lparr>tab_id = 2, url = ''https://a.example/'', pendingUrl = None, index = 1, pinned = False, groupId = - 1\<rparr>,
            \<lparr>tab_id = 1, url = ''https://b.example/'', pendingUrl = None, index = 0, pinned = False, groupId = - 1\<rparr>],
         tabGroups = [], requests = [TabsMove [2, 1] 0]\<rparr>) \<and>
   sortTabsScope_B newURL_ref encodeURIComponent localeCompare_ref
     [\<lparr>tab_id = 1, url = ''https://b.example/'', pendingUrl = None, index = 0, pinned = False, groupId = - 1\<rparr>,
      \<lparr>tab_id = 2, url = ''https://a.example/'', pendingUrl = None, index = 1, pinned = False, groupId = - 1\<rparr>]
     0 (- 1)
     \<lparr>window =
        [\<lparr>tab_id = 1, url = ''https://b.example/'', pendingUrl = None, index = 0, pinned = False, groupId = - 1\<rparr>,
         \<lparr>tab_id = 2, url = ''https://a.example/'', pendingUrl = None, index = 1, pinned = False, groupId = - 1\<rparr>],
      tabGroups = [], requests = []\<rparr>
     = (None,
        \<lparr>window =
           [\<lparr>tab_id = 2, url = ''https://a.example/'', pendingUrl = None, index = 1, pinned = False, groupId = - 1\<rparr>,
            \<lparr>tab_id = 1, url = ''https://b.example/'', pendingUrl = None, index = 0, pinned = False, groupId = - 1\<rparr>],
         tabGroups = [], requests = [TabsMove [2, 1] 0]\<rparr>) \<and>
   mset [2, 1] =
     mset (map tab_id
       [\<lparr>tab_id = 1, url = ''https://b.example/'', pendingUrl = None, index = 0, pinned = False, groupId = - 1\<rparr>,
      \<lparr>tab_id = 2, url = ''https://a.example/'', pendingUrl = None, index = 1, pinned = False, groupId = - 1\<rparr>])"
proof -
  let ?tabs =
    "[\<lparr>tab_id = 1, url = ''https://b.example/'', pendingUrl = None, index = 0, pinned = False, groupId = - 1\<rparr>,
      \<lparr>tab_id = 2, url = ''https://a.example/'', pendingUrl = None, index = 1, pinned = False, groupId = - 1\<rparr>]"
  have a: "sortedIds_A newURL_ref encodeURIComponent localeCompare_ref ?tabs = Inr [2, 1]"
    by code_simp
  have b: "sortedIds_B newURL_ref encodeURIComponent localeCompare_ref ?tabs = Inr [2, 1]"
    by code_simp
  have m: "mset [2, 1] = mset (map tab_id ?tabs)"
    by (rule move_request_keeps_identities[THEN conjunct1, rule_format, OF a])
  have dA: "sortTabsScope_A newURL_ref encodeURIComponent localeCompare_ref ?tabs 0 (- 1)
     \<lparr>window =
        [\<lparr>tab_id = 1, url = ''https://b.example/'', pendingUrl = None, index = 0, pinned = False, groupId = - 1\<rparr>,
         \<lparr>tab_id = 2, url = ''https://a.example/'', pendingUrl = None, index = 1, pinned = False, groupId = - 1\<rparr>],
      tabGroups = [], requests = []\<rparr>
     = (None,
        \<lparr>window =
           [\<lparr>tab_id = 2, url = ''https://a.example/'', pendingUrl = None, index = 1, pinned = False, groupId = - 1\<rparr>,
            \<lparr>tab_id = 1, url = ''https://b.example/'', pendingUrl = None, index = 0, pinned = False, groupId = - 1\<rparr>],
         tabGroups = [], requests = [TabsMove [2, 1] 0]\<rparr>)"
    by (simp add: sortTabsScope_A_def a andThen_def tabs_move_def knownTabs_def del: One_nat_def)
  have dB: "sortTabsScope_B newURL_ref encodeURIComponent localeCompare_ref ?tabs 0 (- 1)
     \<lparr>window =
        [\<lparr>tab_id = 1, url = ''https://b.example/'', pendingUrl = None, index = 0, pinned = False, groupId = - 1\<rparr>,
         \<lparr>tab_id = 2, url = ''https://a.example/'', pendingUrl = None, index = 1, pinned = False, groupId = - 1\<rparr>],
      tabGroups = [], requests = []\<rparr>
     = (None,
        \<lparr>window =
           [\<lparr>tab_id = 2, url = ''https://a.example/'', pendingUrl = None, index = 1, pinned = False, groupId = - 1\<rparr>,
            \<lparr>tab_id = 1, url = ''https://b.example/'', pendingUrl = None, index = 0, pinned = False, groupId = - 1\<rparr>],
         tabGroups = [], requests = [TabsMove [2, 1] 0]\<rparr>)"
    by (simp add: sortTabsScope_B_def b andThen_def tabs_move_def knownTabs_def del: One_nat_def)
  show ?thesis by (intro conjI a b dA dB m)
qed

lemma decorated_exists:
  assumes F: "\<And>t i. f t i = (case resolve t of Inl e \<Rightarrow> Inl e | Inr u \<Rightarrow> Inr (spec_decoration bucket t i u))"
  shows "(\<exists>ds. mapIndexed f 0 tabs = Inr ds) = (\<forall>t\<in>set tabs. \<exists>u. resolve t = Inr u)"
proof
  assume "\<exists>ds. mapIndexed f 0 tabs = Inr ds"
  then obtain ds where m: "mapIndexed f 0 tabs = Inr ds" by blast
  show "\<forall>t\<in>set tabs. \<exists>u. resolve t = Inr u"
  proof
    fix t assume "t \<in> set tabs"
    then obtain k where k: "k < length tabs" "t = tabs ! k" by (metis in_set_conv_nth)
    from decorated_nth[OF F m k(1)] k(2) show "\<exists>u. resolve t = Inr u" by blast
  qed
next
  assume r: "\<forall>t\<in>set tabs. \<exists>u. resolve t = Inr u"
  show "\<exists>ds. mapIndexed f 0 tabs = Inr ds"
  proof (rule mapIndexed_total)
    fix k assume "k < length tabs"
    then obtain u where "resolve (tabs ! k) = Inr u" using r by (meson nth_mem)
    then show "\<exists>y. f (tabs ! k) (0 + k) = Inr y" using F[of "tabs ! k" "0 + k"] by simp
  qed
qed

lemma sortedDecorated_A_Inr:
  "sortedDecorated_A newURL enc cmp tabs = Inr out \<longleftrightarrow>
   (\<exists>ds. mapIndexed (decorate_A newURL enc) 0 tabs = Inr ds \<and> out = sortBy (compareDecorated cmp) ds)"
  by (auto simp: sortedDecorated_A_def split: sum.splits)

lemma sortedDecorated_B_Inr:
  "sortedDecorated_B newURL enc cmp tabs = Inr out \<longleftrightarrow>
   (\<exists>ds. mapIndexed (decorate_B newURL enc) 0 tabs = Inr ds \<and> out = sortBy (compareDecorated cmp) ds)"
  by (auto simp: sortedDecorated_B_def split: sum.splits)

lemma spec_scope_order_stable:
  assumes "spec_scope_order resolve bucket cmp tabs out"
    and "i < j" "j < length out"
    and "cmp (hostKey (out ! i)) (hostKey (out ! j)) = 0"
    and "cmp (sortKey (out ! i)) (sortKey (out ! j)) = 0"
  shows "originalIndex (out ! i) < originalIndex (out ! j)"
proof -
  have "sorted_wrt (spec_precedes cmp) out" using assms(1) unfolding spec_scope_order_def by blast
  then have "spec_precedes cmp (out ! i) (out ! j)"
    using assms(2,3) by (simp add: sorted_wrt_iff_nth_less)
  with assms(4,5) show ?thesis by (simp add: spec_precedes_def)
qed

text \<open>The part of the claim that does not depend on the file.\<close>

lemma scope_order_parts:
  assumes F: "\<And>t i. f t i = (case resolve t of Inl e \<Rightarrow> Inl e | Inr u \<Rightarrow> Inr (spec_decoration bucket t i u))"
    and c: "collation cmp" and m: "mapIndexed f 0 tabs = Inr ds"
  defines "out \<equiv> sortBy (compareDecorated cmp) ds"
  shows "spec_scope_order resolve bucket cmp tabs out \<and>
         (\<forall>out'. spec_scope_order resolve bucket cmp tabs out' \<longrightarrow> out' = out) \<and>
         (\<forall>i j. i < j \<and> j < length out \<and>
                cmp (hostKey (out ! i)) (hostKey (out ! j)) = 0 \<and>
                cmp (sortKey (out ! i)) (sortKey (out ! j)) = 0 \<longrightarrow>
                originalIndex (out ! i) < originalIndex (out ! j))"
proof -
  have o: "spec_scope_order resolve bucket cmp tabs out"
    unfolding out_def by (rule scope_order_generic[OF F c m])
  have u: "out' = out" if "spec_scope_order resolve bucket cmp tabs out'" for out'
    by (rule scope_order_unique[OF c that o])
  have s: "originalIndex (out ! i) < originalIndex (out ! j)"
    if "i < j" "j < length out" "cmp (hostKey (out ! i)) (hostKey (out ! j)) = 0"
      "cmp (sortKey (out ! i)) (sortKey (out ! j)) = 0" for i j
    by (rule spec_scope_order_stable[OF o that])
  from o u s show ?thesis by blast
qed

lemma sortTabsScope_A_move:
  assumes run: "sortTabsScope_A newURL enc cmp tabs s g h = (None, h')" and ne: "tabs \<noteq> []"
  shows "\<exists>ids. sortedIds_A newURL enc cmp tabs = Inr ids \<and> TabsMove ids s \<in> set (requests h')"
proof -
  from sortTabsScope_A_effect[OF run] obtain rs where
    rs: "requests h' = requests h @ rs"
    and mv: "tabs \<noteq> [] \<and> None = (None :: error option) \<longrightarrow>
          (\<exists>ids. sortedIds_A newURL enc cmp tabs = Inr ids \<and> TabsMove ids s \<in> set rs)"
    by blast
  from mv ne obtain ids where "sortedIds_A newURL enc cmp tabs = Inr ids" "TabsMove ids s \<in> set rs"
    by blast
  with rs show ?thesis by auto
qed

lemma sortTabsScope_B_move:
  assumes run: "sortTabsScope_B newURL enc cmp tabs s g h = (None, h')" and ne: "tabs \<noteq> []"
  shows "\<exists>ids. sortedIds_B newURL enc cmp tabs = Inr ids \<and> TabsMove ids s \<in> set (requests h')"
proof -
  from sortTabsScope_B_effect[OF run] obtain rs where
    rs: "requests h' = requests h @ rs"
    and mv: "tabs \<noteq> [] \<and> None = (None :: error option) \<longrightarrow>
          (\<exists>ids. sortedIds_B newURL enc cmp tabs = Inr ids \<and> TabsMove ids s \<in> set rs)"
    by blast
  from mv ne obtain ids where "sortedIds_B newURL enc cmp tabs = Inr ids" "TabsMove ids s \<in> set rs"
    by blast
  with rs show ?thesis by auto
qed

lemma scope_order_A:
  assumes c: "collation cmp" and ne: "tabs \<noteq> []"
  shows "((\<exists>out. sortedDecorated_A newURL enc cmp tabs = Inr out) =
            (\<forall>t\<in>set tabs. \<exists>u. resolveTabUrl_A newURL enc t = Inr u)) \<and>
         (\<forall>out. sortedDecorated_A newURL enc cmp tabs = Inr out \<longrightarrow>
            sortedIds_A newURL enc cmp tabs = Inr (map dec_id out) \<and>
            (\<forall>s g h h'. sortTabsScope_A newURL enc cmp tabs s g h = (None, h') \<longrightarrow>
                TabsMove (map dec_id out) s \<in> set (requests h')) \<and>
            spec_scope_order (resolveTabUrl_A newURL enc) hostKey_A cmp tabs out \<and>
            (\<forall>out'. spec_scope_order (resolveTabUrl_A newURL enc) hostKey_A cmp tabs out' \<longrightarrow> out' = out) \<and>
            (\<forall>i j. i < j \<and> j < length out \<and>
                cmp (hostKey (out ! i)) (hostKey (out ! j)) = 0 \<and>
                cmp (sortKey (out ! i)) (sortKey (out ! j)) = 0 \<longrightarrow>
                originalIndex (out ! i) < originalIndex (out ! j)))"
proof (intro conjI allI impI)
  show "(\<exists>out. sortedDecorated_A newURL enc cmp tabs = Inr out) =
            (\<forall>t\<in>set tabs. \<exists>u. resolveTabUrl_A newURL enc t = Inr u)"
    using decorated_exists[where f = "decorate_A newURL enc" and resolve = "resolveTabUrl_A newURL enc"
        and bucket = hostKey_A and tabs = tabs, OF decorate_A_spec]
    unfolding sortedDecorated_A_Inr by blast
next
  fix out assume o: "sortedDecorated_A newURL enc cmp tabs = Inr out"
  then obtain ds where m: "mapIndexed (decorate_A newURL enc) 0 tabs = Inr ds"
    and out: "out = sortBy (compareDecorated cmp) ds"
    unfolding sortedDecorated_A_Inr by blast
  show ids: "sortedIds_A newURL enc cmp tabs = Inr (map dec_id out)"
    using o by (simp add: sortedIds_A_def)
  show so: "spec_scope_order (resolveTabUrl_A newURL enc) hostKey_A cmp tabs out"
    unfolding out by (rule scope_order_generic[OF decorate_A_spec c m])
  { fix out' assume "spec_scope_order (resolveTabUrl_A newURL enc) hostKey_A cmp tabs out'"
    then show "out' = out" using so by (rule scope_order_unique[OF c]) }
  { fix i j assume a: "i < j \<and> j < length out \<and>
                cmp (hostKey (out ! i)) (hostKey (out ! j)) = 0 \<and>
                cmp (sortKey (out ! i)) (sortKey (out ! j)) = 0"
    show "originalIndex (out ! i) < originalIndex (out ! j)"
      by (rule spec_scope_order_stable[OF so]) (use a in simp_all) }
  { fix s g h h' assume run: "sortTabsScope_A newURL enc cmp tabs s g h = (None, h')"
    from sortTabsScope_A_move[OF run ne] ids
    show "TabsMove (map dec_id out) s \<in> set (requests h')" by auto }
qed

lemma scope_order_B:
  assumes c: "collation cmp" and ne: "tabs \<noteq> []"
  shows "((\<exists>out. sortedDecorated_B newURL enc cmp tabs = Inr out) =
            (\<forall>t\<in>set tabs. \<exists>u. resolveTabUrl_B newURL enc t = Inr u)) \<and>
         (\<forall>out. sortedDecorated_B newURL enc cmp tabs = Inr out \<longrightarrow>
            sortedIds_B newURL enc cmp tabs = Inr (map dec_id out) \<and>
            (\<forall>s g h h'. sortTabsScope_B newURL enc cmp tabs s g h = (None, h') \<longrightarrow>
                TabsMove (map dec_id out) s \<in> set (requests h')) \<and>
            spec_scope_order (resolveTabUrl_B newURL enc) cleanHost cmp tabs out \<and>
            (\<forall>out'. spec_scope_order (resolveTabUrl_B newURL enc) cleanHost cmp tabs out' \<longrightarrow> out' = out) \<and>
            (\<forall>i j. i < j \<and> j < length out \<and>
                cmp (hostKey (out ! i)) (hostKey (out ! j)) = 0 \<and>
                cmp (sortKey (out ! i)) (sortKey (out ! j)) = 0 \<longrightarrow>
                originalIndex (out ! i) < originalIndex (out ! j)))"
proof (intro conjI allI impI)
  show "(\<exists>out. sortedDecorated_B newURL enc cmp tabs = Inr out) =
            (\<forall>t\<in>set tabs. \<exists>u. resolveTabUrl_B newURL enc t = Inr u)"
    using decorated_exists[where f = "decorate_B newURL enc" and resolve = "resolveTabUrl_B newURL enc"
        and bucket = cleanHost and tabs = tabs, OF decorate_B_spec]
    unfolding sortedDecorated_B_Inr by blast
next
  fix out assume o: "sortedDecorated_B newURL enc cmp tabs = Inr out"
  then obtain ds where m: "mapIndexed (decorate_B newURL enc) 0 tabs = Inr ds"
    and out: "out = sortBy (compareDecorated cmp) ds"
    unfolding sortedDecorated_B_Inr by blast
  show ids: "sortedIds_B newURL enc cmp tabs = Inr (map dec_id out)"
    using o by (simp add: sortedIds_B_def)
  show so: "spec_scope_order (resolveTabUrl_B newURL enc) cleanHost cmp tabs out"
    unfolding out by (rule scope_order_generic[OF decorate_B_spec c m])
  { fix out' assume "spec_scope_order (resolveTabUrl_B newURL enc) cleanHost cmp tabs out'"
    then show "out' = out" using so by (rule scope_order_unique[OF c]) }
  { fix i j assume a: "i < j \<and> j < length out \<and>
                cmp (hostKey (out ! i)) (hostKey (out ! j)) = 0 \<and>
                cmp (sortKey (out ! i)) (sortKey (out ! j)) = 0"
    show "originalIndex (out ! i) < originalIndex (out ! j)"
      by (rule spec_scope_order_stable[OF so]) (use a in simp_all) }
  { fix s g h h' assume run: "sortTabsScope_B newURL enc cmp tabs s g h = (None, h')"
    from sortTabsScope_B_move[OF run ne] ids
    show "TabsMove (map dec_id out) s \<in> set (requests h')" by auto }
qed

text \<open>
  C1. For a non-empty list of tabs, the scope sorter of either file produces a result exactly
  when every tab resolves to a URL; the result holds, for each tab, the sort key "bucket key,
  path, query, fragment", and is arranged by bucket key, then sort key, then original index,
  each ascending (\<open>spec_scope_order\<close>); it is the only arrangement of that kind; two tabs
  whose bucket keys and sort keys collate equal stay in their original order; and the
  identities in that order are what the move request carries.
\<close>

theorem scope_order_determined:
  assumes "collation cmp" and "tabs \<noteq> []"
  shows
  "(((\<exists>out. sortedDecorated_A newURL enc cmp tabs = Inr out) =
      (\<forall>t\<in>set tabs. \<exists>u. resolveTabUrl_A newURL enc t = Inr u)) \<and>
   (\<forall>out. sortedDecorated_A newURL enc cmp tabs = Inr out \<longrightarrow>
      sortedIds_A newURL enc cmp tabs = Inr (map dec_id out) \<and>
      (\<forall>s g h h'. sortTabsScope_A newURL enc cmp tabs s g h = (None, h') \<longrightarrow>
          TabsMove (map dec_id out) s \<in> set (requests h')) \<and>
      spec_scope_order (resolveTabUrl_A newURL enc) hostKey_A cmp tabs out \<and>
      (\<forall>out'. spec_scope_order (resolveTabUrl_A newURL enc) hostKey_A cmp tabs out' \<longrightarrow> out' = out) \<and>
      (\<forall>i j. i < j \<and> j < length out \<and>
          cmp (hostKey (out ! i)) (hostKey (out ! j)) = 0 \<and>
          cmp (sortKey (out ! i)) (sortKey (out ! j)) = 0 \<longrightarrow>
          originalIndex (out ! i) < originalIndex (out ! j)))) \<and>
   (((\<exists>out. sortedDecorated_B newURL enc cmp tabs = Inr out) =
      (\<forall>t\<in>set tabs. \<exists>u. resolveTabUrl_B newURL enc t = Inr u)) \<and>
   (\<forall>out. sortedDecorated_B newURL enc cmp tabs = Inr out \<longrightarrow>
      sortedIds_B newURL enc cmp tabs = Inr (map dec_id out) \<and>
      (\<forall>s g h h'. sortTabsScope_B newURL enc cmp tabs s g h = (None, h') \<longrightarrow>
          TabsMove (map dec_id out) s \<in> set (requests h')) \<and>
      spec_scope_order (resolveTabUrl_B newURL enc) cleanHost cmp tabs out \<and>
      (\<forall>out'. spec_scope_order (resolveTabUrl_B newURL enc) cleanHost cmp tabs out' \<longrightarrow> out' = out) \<and>
      (\<forall>i j. i < j \<and> j < length out \<and>
          cmp (hostKey (out ! i)) (hostKey (out ! j)) = 0 \<and>
          cmp (sortKey (out ! i)) (sortKey (out ! j)) = 0 \<longrightarrow>
          originalIndex (out ! i) < originalIndex (out ! j))))"
  by (rule conjI[OF scope_order_A[OF assms] scope_order_B[OF assms]])

theorem scope_order_determined_witness:
  "collation localeCompare_ref \<and>
   sortedDecorated_A newURL_ref encodeURIComponent localeCompare_ref
     [\<lparr>tab_id = 1, url = ''https://b.example/x'', pendingUrl = None, index = 0, pinned = False, groupId = - 1\<rparr>,
      \<lparr>tab_id = 2, url = ''https://a.example/'', pendingUrl = None, index = 2, pinned = False, groupId = - 1\<rparr>,
      \<lparr>tab_id = 3, url = ''https://b.example/x'', pendingUrl = None, index = 3, pinned = False, groupId = - 1\<rparr>] =
   Inr [\<lparr>dec_id = 2, originalIndex = 1, hostKey = ''a.example'', sortKey = ''a.example/''\<rparr>,
      \<lparr>dec_id = 1, originalIndex = 0, hostKey = ''b.example'', sortKey = ''b.example/x''\<rparr>,
      \<lparr>dec_id = 3, originalIndex = 2, hostKey = ''b.example'', sortKey = ''b.example/x''\<rparr>] \<and>
   spec_scope_order (resolveTabUrl_A newURL_ref encodeURIComponent) hostKey_A localeCompare_ref
     [\<lparr>tab_id = 1, url = ''https://b.example/x'', pendingUrl = None, index = 0, pinned = False, groupId = - 1\<rparr>,
      \<lparr>tab_id = 2, url = ''https://a.example/'', pendingUrl = None, index = 2, pinned = False, groupId = - 1\<rparr>,
      \<lparr>tab_id = 3, url = ''https://b.example/x'', pendingUrl = None, index = 3, pinned = False, groupId = - 1\<rparr>]
     [\<lparr>dec_id = 2, originalIndex = 1, hostKey = ''a.example'', sortKey = ''a.example/''\<rparr>,
      \<lparr>dec_id = 1, originalIndex = 0, hostKey = ''b.example'', sortKey = ''b.example/x''\<rparr>,
      \<lparr>dec_id = 3, originalIndex = 2, hostKey = ''b.example'', sortKey = ''b.example/x''\<rparr>] \<and>
   sortedDecorated_B newURL_ref encodeURIComponent localeCompare_ref
     [\<lparr>tab_id = 1, url = ''https://b.example/x'', pendingUrl = None, index = 0, pinned = False, groupId = - 1\<rparr>,
      \<lparr>tab_id = 2, url = ''https://a.example/'', pendingUrl = None, index = 2, pinned = False, groupId = - 1\<rparr>,
      \<lparr>tab_id = 3, url = ''https://b.example/x'', pendingUrl = None, index = 3, pinned = False, groupId = - 1\<rparr>] =
   Inr [\<lparr>dec_id = 2, originalIndex = 1, hostKey = ''a.example'', sortKey = ''a.example/''\<rparr>,
      \<lparr>dec_id = 1, originalIndex = 0, hostKey = ''b.example'', sortKey = ''b.example/x''\<rparr>,
      \<lparr>dec_id = 3, originalIndex = 2, hostKey = ''b.example'', sortKey = ''b.example/x''\<rparr>] \<and>
   spec_scope_order (resolveTabUrl_B newURL_ref encodeURIComponent) cleanHost localeCompare_ref
     [\<lparr>tab_id = 1, url = ''https://b.example/x'', pendingUrl = None, index = 0, pinned = False, groupId = - 1\<rparr>,
      \<lparr>tab_id = 2, url = ''https://a.example/'', pendingUrl = None, index = 2, pinned = False, groupId = - 1\<rparr>,
      \<lparr>tab_id = 3, url = ''https://b.example/x'', pendingUrl = None, index = 3, pinned = False, groupId = - 1\<rparr>]
     [\<lparr>dec_id = 2, originalIndex = 1, hostKey = ''a.example'', sortKey = ''a.example/''\<rparr>,
      \<lparr>dec_id = 1, originalIndex = 0, hostKey = ''b.example'', sortKey = ''b.example/x''\<rparr>,
      \<lparr>dec_id = 3, originalIndex = 2, hostKey = ''b.example'', sortKey = ''b.example/x''\<rparr>]"
proof -
  let ?tabs = "[\<lparr>tab_id = 1, url = ''https://b.example/x'', pendingUrl = None, index = 0, pinned = False, groupId = - 1\<rparr>,
      \<lparr>tab_id = 2, url = ''https://a.example/'', pendingUrl = None, index = 2, pinned = False, groupId = - 1\<rparr>,
      \<lparr>tab_id = 3, url = ''https://b.example/x'', pendingUrl = None, index = 3, pinned = False, groupId = - 1\<rparr>]"
  let ?out = "[\<lparr>dec_id = 2, originalIndex = 1, hostKey = ''a.example'', sortKey = ''a.example/''\<rparr>,
      \<lparr>dec_id = 1, originalIndex = 0, hostKey = ''b.example'', sortKey = ''b.example/x''\<rparr>,
      \<lparr>dec_id = 3, originalIndex = 2, hostKey = ''b.example'', sortKey = ''b.example/x''\<rparr>]"
  have ne: "?tabs \<noteq> []" by simp
  have a: "sortedDecorated_A newURL_ref encodeURIComponent localeCompare_ref ?tabs = Inr ?out"
    by code_simp
  have b: "sortedDecorated_B newURL_ref encodeURIComponent localeCompare_ref ?tabs = Inr ?out"
    by code_simp
  note T = scope_order_determined[OF collation_ref ne, of newURL_ref encodeURIComponent]
  have sa: "spec_scope_order (resolveTabUrl_A newURL_ref encodeURIComponent) hostKey_A
              localeCompare_ref ?tabs ?out"
    using T[THEN conjunct1, THEN conjunct2, rule_format, OF a] by (elim conjE)
  have sb: "spec_scope_order (resolveTabUrl_B newURL_ref encodeURIComponent) cleanHost
              localeCompare_ref ?tabs ?out"
    using T[THEN conjunct2, THEN conjunct2, rule_format, OF b] by (elim conjE)
  show ?thesis by (intro conjI collation_ref a sa b sb)
qed

lemma arranged_mset:
  assumes F: "\<And>t i. f t i = (case resolve t of Inl e \<Rightarrow> Inl e | Inr u \<Rightarrow> Inr (spec_decoration bucket t i u))"
    and m: "mapIndexed f 0 tabs = Inr ds"
  shows "mset (arranged tabs (sortBy c ds)) = mset tabs"
proof -
  have "mset (map originalIndex (sortBy c ds)) = mset (map originalIndex ds)"
    by (simp add: mset_sortBy)
  also have "\<dots> = mset [0..<length tabs]" using decorated_index[OF F m] by simp
  finally have "image_mset ((!) tabs) (mset (map originalIndex (sortBy c ds))) =
                image_mset ((!) tabs) (mset [0..<length tabs])" by simp
  then have "mset (map ((!) tabs) (map originalIndex (sortBy c ds))) = mset (map ((!) tabs) [0..<length tabs])"
    by (simp only: mset_map)
  then show ?thesis by (simp add: arranged_def map_nth o_def)
qed

lemma idempotent_generic:
  assumes F: "\<And>t i. f t i = (case resolve t of Inl e \<Rightarrow> Inl e | Inr u \<Rightarrow> Inr (spec_decoration bucket t i u))"
    and c: "collation cmp" and m: "mapIndexed f 0 tabs = Inr ds"
  defines "out \<equiv> sortBy (compareDecorated cmp) ds"
  shows "mset (arranged tabs out) = mset tabs \<and>
         map tab_id (arranged tabs out) = map dec_id out \<and>
         (\<exists>ds'. mapIndexed f 0 (arranged tabs out) = Inr ds' \<and>
                map dec_id (sortBy (compareDecorated cmp) ds') = map dec_id out)"
proof -
  from resorted_generic[OF F c m] obtain ds' where
    d: "mapIndexed f 0 (arranged tabs out) = Inr ds'"
      "sortBy (compareDecorated cmp) ds' = ds'"
      "map dec_id ds' = map dec_id out"
      "map tab_id (arranged tabs out) = map dec_id out"
    unfolding arranged_def out_def by blast
  have "mset (arranged tabs out) = mset tabs" unfolding out_def by (rule arranged_mset[OF F m])
  with d show ?thesis by auto
qed

lemma idempotent_A:
  assumes c: "collation cmp" and o: "sortedDecorated_A newURL enc cmp tabs = Inr out"
  shows "mset (arranged tabs out) = mset tabs"
    and "map tab_id (arranged tabs out) = map dec_id out"
    and "sortedIds_A newURL enc cmp (arranged tabs out) = Inr (map dec_id out)"
    and "sortedIds_A newURL enc cmp (arranged tabs out) = sortedIds_A newURL enc cmp tabs"
proof -
  from o obtain ds where m: "mapIndexed (decorate_A newURL enc) 0 tabs = Inr ds"
    and out: "out = sortBy (compareDecorated cmp) ds"
    unfolding sortedDecorated_A_Inr by blast
  from idempotent_generic[OF decorate_A_spec c m, folded out] obtain ds' where
    g: "mset (arranged tabs out) = mset tabs" "map tab_id (arranged tabs out) = map dec_id out"
      "mapIndexed (decorate_A newURL enc) 0 (arranged tabs out) = Inr ds'"
      "map dec_id (sortBy (compareDecorated cmp) ds') = map dec_id out" by blast
  show "mset (arranged tabs out) = mset tabs" by (rule g(1))
  show "map tab_id (arranged tabs out) = map dec_id out" by (rule g(2))
  show s: "sortedIds_A newURL enc cmp (arranged tabs out) = Inr (map dec_id out)"
    using g(3,4) by (simp add: sortedIds_A_def sortedDecorated_A_def)
  show "sortedIds_A newURL enc cmp (arranged tabs out) = sortedIds_A newURL enc cmp tabs"
    using s o by (simp add: sortedIds_A_def)
qed

lemma idempotent_B:
  assumes c: "collation cmp" and o: "sortedDecorated_B newURL enc cmp tabs = Inr out"
  shows "mset (arranged tabs out) = mset tabs"
    and "map tab_id (arranged tabs out) = map dec_id out"
    and "sortedIds_B newURL enc cmp (arranged tabs out) = Inr (map dec_id out)"
    and "sortedIds_B newURL enc cmp (arranged tabs out) = sortedIds_B newURL enc cmp tabs"
proof -
  from o obtain ds where m: "mapIndexed (decorate_B newURL enc) 0 tabs = Inr ds"
    and out: "out = sortBy (compareDecorated cmp) ds"
    unfolding sortedDecorated_B_Inr by blast
  from idempotent_generic[OF decorate_B_spec c m, folded out] obtain ds' where
    g: "mset (arranged tabs out) = mset tabs" "map tab_id (arranged tabs out) = map dec_id out"
      "mapIndexed (decorate_B newURL enc) 0 (arranged tabs out) = Inr ds'"
      "map dec_id (sortBy (compareDecorated cmp) ds') = map dec_id out" by blast
  show "mset (arranged tabs out) = mset tabs" by (rule g(1))
  show "map tab_id (arranged tabs out) = map dec_id out" by (rule g(2))
  show s: "sortedIds_B newURL enc cmp (arranged tabs out) = Inr (map dec_id out)"
    using g(3,4) by (simp add: sortedIds_B_def sortedDecorated_B_def)
  show "sortedIds_B newURL enc cmp (arranged tabs out) = sortedIds_B newURL enc cmp tabs"
    using s o by (simp add: sortedIds_B_def)
qed

subsection \<open>A move to the place the tabs have\<close>

lemma filter_unique:
  "distinct (map f w) \<Longrightarrow> b \<in> set w \<Longrightarrow> filter (\<lambda>t. f t = f b) w = [b]"
proof (induction w)
  case Nil
  then show ?case by simp
next
  case (Cons a w)
  show ?case
  proof (cases "a = b")
    case True
    have "f b \<notin> f ` set w" using Cons.prems(1) True by simp
    then have "filter (\<lambda>t. f t = f b) w = []"
      by (auto simp: filter_empty_conv image_iff)
    with True show ?thesis by simp
  next
    case False
    with Cons.prems have b: "b \<in> set w" by simp
    then have "f a \<noteq> f b" using Cons.prems(1) by auto
    with Cons.IH b Cons.prems(1) show ?thesis by simp
  qed
qed

lemma block_self:
  "distinct (map f w) \<Longrightarrow> set blk \<subseteq> set w \<Longrightarrow>
   concat (map (\<lambda>x. filter (\<lambda>t. f t = x) w) (map f blk)) = blk"
  by (induction blk) (simp_all add: filter_unique)

lemma tabs_move_in_place:
  assumes w: "window h = pre @ blk @ post" and ids: "map tab_id blk = ids"
    and d: "distinct (map tab_id (window h))"
  shows "tabs_move ids (length pre) h = (None, h\<lparr>requests := requests h @ [TabsMove ids (length pre)]\<rparr>)"
proof -
  have dis: "set (map tab_id pre) \<inter> set ids = {}" "set (map tab_id post) \<inter> set ids = {}"
    and dids: "distinct ids"
    using d w ids by auto
  have known: "knownTabs h ids"
    using w ids by (auto simp: knownTabs_def list_all_iff)
  have fpre: "filter (\<lambda>t. tab_id t \<notin> set ids) pre = pre"
    using dis(1) by (auto simp: filter_id_conv)
  have fpost: "filter (\<lambda>t. tab_id t \<notin> set ids) post = post"
    using dis(2) by (auto simp: filter_id_conv)
  have fblk: "filter (\<lambda>t. tab_id t \<notin> set ids) blk = []"
    using ids by (auto simp: filter_empty_conv)
  have rest: "filter (\<lambda>t. tab_id t \<notin> set ids) (window h) = pre @ post"
    using fpre fpost fblk w by simp
  have "concat (map (\<lambda>x. filter (\<lambda>t. tab_id t = x) (window h)) (map tab_id blk)) = blk"
    by (rule block_self[OF d]) (use w in auto)
  then have moved: "concat (map (\<lambda>x. filter (\<lambda>t. tab_id t = x) (window h)) (remdups ids)) = blk"
    using dids ids by (simp add: distinct_remdups_id)
  have "take (length pre) (pre @ post) @ blk @ drop (length pre) (pre @ post) = window h"
    using w by simp
  with known rest moved show ?thesis
    by (simp add: tabs_move_def Let_def)
qed

lemma regroup_same:
  "(\<And>t. t \<in> set w \<Longrightarrow> P t \<Longrightarrow> groupId t = g) \<Longrightarrow>
   map (\<lambda>t. if P t then t\<lparr>groupId := g\<rparr> else t) w = w"
  by (induction w) auto

lemma scope_in_place:
  assumes def: "\<And>tabs s g h. scope tabs s g h =
      (if tabs = [] then (None, h)
       else case srt tabs of
              Inl e \<Rightarrow> (Some e, h)
            | Inr ids \<Rightarrow> andThen (tabs_move ids s h)
                          (\<lambda>h1. if g > - 1 then tabs_group g ids h1 else (None, h1)))"
    and srt: "srt tabs = Inr ids"
    and w: "window h = pre @ blk @ post" and ids: "map tab_id blk = ids"
    and d: "distinct (map tab_id (window h))"
    and g: "g > - 1 \<Longrightarrow> \<forall>b\<in>set blk. groupId b = g"
    and run: "scope tabs (length pre) g h = (r, h2)"
  shows "window h2 = window h"
proof (cases "tabs = []")
  case True
  with run def[of tabs "length pre" g h] show ?thesis by simp
next
  case ne: False
  let ?h1 = "h\<lparr>requests := requests h @ [TabsMove ids (length pre)]\<rparr>"
  have mv: "tabs_move ids (length pre) h = (None, ?h1)" by (rule tabs_move_in_place[OF w ids d])
  show ?thesis
  proof (cases "g > - 1")
    case False
    with ne srt mv run def[of tabs "length pre" g h] have "h2 = ?h1" by (simp add: andThen_def)
    then show ?thesis by simp
  next
    case True
    with ne srt mv run def[of tabs "length pre" g h] have tg: "tabs_group g ids ?h1 = (r, h2)"
      by (simp add: andThen_def)
    from tabs_group_cases[OF tg] show ?thesis
    proof
      assume "r = Some HostRejected \<and> h2 = ?h1"
      then show ?thesis by simp
    next
      assume a: "r = None \<and> requests h2 = requests ?h1 @ [TabsGroup g ids] \<and>
        tabGroups h2 = tabGroups ?h1 \<and>
        window h2 = map (\<lambda>t. if tab_id t \<in> set ids then t\<lparr>groupId := g\<rparr> else t) (window ?h1)"
      have "map (\<lambda>t. if tab_id t \<in> set ids then t\<lparr>groupId := g\<rparr> else t) (window h) = window h"
      proof (rule regroup_same)
        fix t assume t: "t \<in> set (window h)" "tab_id t \<in> set ids"
        have "set (map tab_id pre) \<inter> set ids = {}" "set (map tab_id post) \<inter> set ids = {}"
          using d w ids by auto
        with t w have "t \<in> set blk" by auto
        with g[OF True] show "groupId t = g" by simp
      qed
      with a show ?thesis by simp
    qed
  qed
qed

text \<open>
  C7. Sorting a scope twice gives the order of sorting it once. When the scope sorter of
  either file has arranged \<open>tabs\<close> as \<open>out\<close>, the tabs in that order (\<open>arranged tabs out\<close>) are
  the same tabs, and given them the sorter asks for the order they already have, the order of
  the first pass. In a window that shows them in that order from the start position, the
  second pass leaves every tab where it is.
\<close>

theorem sort_idempotent:
  assumes "collation cmp"
  shows
  "((\<forall>out. sortedDecorated_A newURL enc cmp tabs = Inr out \<longrightarrow>
      mset (arranged tabs out) = mset tabs \<and>
      map tab_id (arranged tabs out) = map dec_id out \<and>
      sortedIds_A newURL enc cmp (arranged tabs out) = Inr (map tab_id (arranged tabs out)) \<and>
      sortedIds_A newURL enc cmp (arranged tabs out) = sortedIds_A newURL enc cmp tabs \<and>
      (\<forall>pre blk post g h r h2.
          window h = pre @ blk @ post \<and> map tab_id blk = map tab_id (arranged tabs out) \<and>
          distinct (map tab_id (window h)) \<and> (g > - 1 \<longrightarrow> (\<forall>b\<in>set blk. groupId b = g)) \<and>
          sortTabsScope_A newURL enc cmp (arranged tabs out) (length pre) g h = (r, h2) \<longrightarrow>
          window h2 = window h))) \<and>
   ((\<forall>out. sortedDecorated_B newURL enc cmp tabs = Inr out \<longrightarrow>
      mset (arranged tabs out) = mset tabs \<and>
      map tab_id (arranged tabs out) = map dec_id out \<and>
      sortedIds_B newURL enc cmp (arranged tabs out) = Inr (map tab_id (arranged tabs out)) \<and>
      sortedIds_B newURL enc cmp (arranged tabs out) = sortedIds_B newURL enc cmp tabs \<and>
      (\<forall>pre blk post g h r h2.
          window h = pre @ blk @ post \<and> map tab_id blk = map tab_id (arranged tabs out) \<and>
          distinct (map tab_id (window h)) \<and> (g > - 1 \<longrightarrow> (\<forall>b\<in>set blk. groupId b = g)) \<and>
          sortTabsScope_B newURL enc cmp (arranged tabs out) (length pre) g h = (r, h2) \<longrightarrow>
          window h2 = window h)))"
proof -
  { fix out assume o: "sortedDecorated_A newURL enc cmp tabs = Inr out"
    note i = idempotent_A[OF assms o]
    have s: "sortedIds_A newURL enc cmp (arranged tabs out) = Inr (map tab_id (arranged tabs out))"
      using i(2,3) by simp
    have p: "window h2 = window h"
      if "window h = pre @ blk @ post \<and> map tab_id blk = map tab_id (arranged tabs out) \<and>
          distinct (map tab_id (window h)) \<and> (g > - 1 \<longrightarrow> (\<forall>b\<in>set blk. groupId b = g)) \<and>
          sortTabsScope_A newURL enc cmp (arranged tabs out) (length pre) g h = (r, h2)"
      for pre blk post g h r h2
    proof (rule scope_in_place[where scope = "sortTabsScope_A newURL enc cmp"
          and srt = "sortedIds_A newURL enc cmp" and tabs = "arranged tabs out"
          and ids = "map tab_id (arranged tabs out)" and pre = pre and blk = blk and post = post
          and g = g and h = h and r = r])
      show "sortTabsScope_A newURL enc cmp tabs s g h =
         (if tabs = [] then (None, h)
          else case sortedIds_A newURL enc cmp tabs of
                 Inl e \<Rightarrow> (Some e, h)
               | Inr ids \<Rightarrow> andThen (tabs_move ids s h)
                             (\<lambda>h1. if g > - 1 then tabs_group g ids h1 else (None, h1)))"
        for tabs s g h by (simp add: sortTabsScope_A_def)
      show "sortedIds_A newURL enc cmp (arranged tabs out) = Inr (map tab_id (arranged tabs out))"
        by (rule s)
      show "window h = pre @ blk @ post" using that by blast
      show "map tab_id blk = map tab_id (arranged tabs out)" using that by blast
      show "distinct (map tab_id (window h))" using that by blast
      show "g > - 1 \<Longrightarrow> \<forall>b\<in>set blk. groupId b = g" using that by blast
      show "sortTabsScope_A newURL enc cmp (arranged tabs out) (length pre) g h = (r, h2)"
        using that by blast
    qed
    have "mset (arranged tabs out) = mset tabs \<and>
      map tab_id (arranged tabs out) = map dec_id out \<and>
      sortedIds_A newURL enc cmp (arranged tabs out) = Inr (map tab_id (arranged tabs out)) \<and>
      sortedIds_A newURL enc cmp (arranged tabs out) = sortedIds_A newURL enc cmp tabs \<and>
      (\<forall>pre blk post g h r h2.
          window h = pre @ blk @ post \<and> map tab_id blk = map tab_id (arranged tabs out) \<and>
          distinct (map tab_id (window h)) \<and> (g > - 1 \<longrightarrow> (\<forall>b\<in>set blk. groupId b = g)) \<and>
          sortTabsScope_A newURL enc cmp (arranged tabs out) (length pre) g h = (r, h2) \<longrightarrow>
          window h2 = window h)"
      using i(1,2,4) s p by blast }
  note A = this

  { fix out assume o: "sortedDecorated_B newURL enc cmp tabs = Inr out"
    note i = idempotent_B[OF assms o]
    have s: "sortedIds_B newURL enc cmp (arranged tabs out) = Inr (map tab_id (arranged tabs out))"
      using i(2,3) by simp
    have p: "window h2 = window h"
      if "window h = pre @ blk @ post \<and> map tab_id blk = map tab_id (arranged tabs out) \<and>
          distinct (map tab_id (window h)) \<and> (g > - 1 \<longrightarrow> (\<forall>b\<in>set blk. groupId b = g)) \<and>
          sortTabsScope_B newURL enc cmp (arranged tabs out) (length pre) g h = (r, h2)"
      for pre blk post g h r h2
    proof (rule scope_in_place[where scope = "sortTabsScope_B newURL enc cmp"
          and srt = "sortedIds_B newURL enc cmp" and tabs = "arranged tabs out"
          and ids = "map tab_id (arranged tabs out)" and pre = pre and blk = blk and post = post
          and g = g and h = h and r = r])
      show "sortTabsScope_B newURL enc cmp tabs s g h =
         (if tabs = [] then (None, h)
          else case sortedIds_B newURL enc cmp tabs of
                 Inl e \<Rightarrow> (Some e, h)
               | Inr ids \<Rightarrow> andThen (tabs_move ids s h)
                             (\<lambda>h1. if g > - 1 then tabs_group g ids h1 else (None, h1)))"
        for tabs s g h by (simp add: sortTabsScope_B_def)
      show "sortedIds_B newURL enc cmp (arranged tabs out) = Inr (map tab_id (arranged tabs out))"
        by (rule s)
      show "window h = pre @ blk @ post" using that by blast
      show "map tab_id blk = map tab_id (arranged tabs out)" using that by blast
      show "distinct (map tab_id (window h))" using that by blast
      show "g > - 1 \<Longrightarrow> \<forall>b\<in>set blk. groupId b = g" using that by blast
      show "sortTabsScope_B newURL enc cmp (arranged tabs out) (length pre) g h = (r, h2)"
        using that by blast
    qed
    have "mset (arranged tabs out) = mset tabs \<and>
      map tab_id (arranged tabs out) = map dec_id out \<and>
      sortedIds_B newURL enc cmp (arranged tabs out) = Inr (map tab_id (arranged tabs out)) \<and>
      sortedIds_B newURL enc cmp (arranged tabs out) = sortedIds_B newURL enc cmp tabs \<and>
      (\<forall>pre blk post g h r h2.
          window h = pre @ blk @ post \<and> map tab_id blk = map tab_id (arranged tabs out) \<and>
          distinct (map tab_id (window h)) \<and> (g > - 1 \<longrightarrow> (\<forall>b\<in>set blk. groupId b = g)) \<and>
          sortTabsScope_B newURL enc cmp (arranged tabs out) (length pre) g h = (r, h2) \<longrightarrow>
          window h2 = window h)"
      using i(1,2,4) s p by blast }
  note B = this

  from A B show ?thesis by blast
qed

theorem sort_idempotent_witness:
  "collation localeCompare_ref \<and>
   sortedDecorated_A newURL_ref encodeURIComponent localeCompare_ref
     [\<lparr>tab_id = 1, url = ''https://b.example/x'', pendingUrl = None, index = 0, pinned = False, groupId = - 1\<rparr>,
      \<lparr>tab_id = 2, url = ''https://a.example/'', pendingUrl = None, index = 2, pinned = False, groupId = - 1\<rparr>,
      \<lparr>tab_id = 3, url = ''https://b.example/x'', pendingUrl = None, index = 3, pinned = False, groupId = - 1\<rparr>] =
   Inr [\<lparr>dec_id = 2, originalIndex = 1, hostKey = ''a.example'', sortKey = ''a.example/''\<rparr>,
      \<lparr>dec_id = 1, originalIndex = 0, hostKey = ''b.example'', sortKey = ''b.example/x''\<rparr>,
      \<lparr>dec_id = 3, originalIndex = 2, hostKey = ''b.example'', sortKey = ''b.example/x''\<rparr>] \<and>
   arranged
     [\<lparr>tab_id = 1, url = ''https://b.example/x'', pendingUrl = None, index = 0, pinned = False, groupId = - 1\<rparr>,
      \<lparr>tab_id = 2, url = ''https://a.example/'', pendingUrl = None, index = 2, pinned = False, groupId = - 1\<rparr>,
      \<lparr>tab_id = 3, url = ''https://b.example/x'', pendingUrl = None, index = 3, pinned = False, groupId = - 1\<rparr>]
     [\<lparr>dec_id = 2, originalIndex = 1, hostKey = ''a.example'', sortKey = ''a.example/''\<rparr>,
      \<lparr>dec_id = 1, originalIndex = 0, hostKey = ''b.example'', sortKey = ''b.example/x''\<rparr>,
      \<lparr>dec_id = 3, originalIndex = 2, hostKey = ''b.example'', sortKey = ''b.example/x''\<rparr>] =
     [\<lparr>tab_id = 2, url = ''https://a.example/'', pendingUrl = None, index = 2, pinned = False, groupId = - 1\<rparr>,
      \<lparr>tab_id = 1, url = ''https://b.example/x'', pendingUrl = None, index = 0, pinned = False, groupId = - 1\<rparr>,
      \<lparr>tab_id = 3, url = ''https://b.example/x'', pendingUrl = None, index = 3, pinned = False, groupId = - 1\<rparr>] \<and>
   sortedIds_A newURL_ref encodeURIComponent localeCompare_ref
     [\<lparr>tab_id = 2, url = ''https://a.example/'', pendingUrl = None, index = 2, pinned = False, groupId = - 1\<rparr>,
      \<lparr>tab_id = 1, url = ''https://b.example/x'', pendingUrl = None, index = 0, pinned = False, groupId = - 1\<rparr>,
      \<lparr>tab_id = 3, url = ''https://b.example/x'', pendingUrl = None, index = 3, pinned = False, groupId = - 1\<rparr>] = Inr [2, 1, 3] \<and>
   sortTabsScope_A newURL_ref encodeURIComponent localeCompare_ref
     [\<lparr>tab_id = 2, url = ''https://a.example/'', pendingUrl = None, index = 2, pinned = False, groupId = - 1\<rparr>,
      \<lparr>tab_id = 1, url = ''https://b.example/x'', pendingUrl = None, index = 0, pinned = False, groupId = - 1\<rparr>,
      \<lparr>tab_id = 3, url = ''https://b.example/x'', pendingUrl = None, index = 3, pinned = False, groupId = - 1\<rparr>] 1 (- 1)
     \<lparr>window = [\<lparr>tab_id = 7, url = ''https://pinned.example/'', pendingUrl = None, index = 0, pinned = True, groupId = - 1\<rparr>,
      \<lparr>tab_id = 2, url = ''https://a.example/'', pendingUrl = None, index = 2, pinned = False, groupId = - 1\<rparr>,
      \<lparr>tab_id = 1, url = ''https://b.example/x'', pendingUrl = None, index = 0, pinned = False, groupId = - 1\<rparr>,
      \<lparr>tab_id = 3, url = ''https://b.example/x'', pendingUrl = None, index = 3, pinned = False, groupId = - 1\<rparr>],
      tabGroups = [], requests = []\<rparr> =
   (None,
     \<lparr>window = [\<lparr>tab_id = 7, url = ''https://pinned.example/'', pendingUrl = None, index = 0, pinned = True, groupId = - 1\<rparr>,
      \<lparr>tab_id = 2, url = ''https://a.example/'', pendingUrl = None, index = 2, pinned = False, groupId = - 1\<rparr>,
      \<lparr>tab_id = 1, url = ''https://b.example/x'', pendingUrl = None, index = 0, pinned = False, groupId = - 1\<rparr>,
      \<lparr>tab_id = 3, url = ''https://b.example/x'', pendingUrl = None, index = 3, pinned = False, groupId = - 1\<rparr>],
      tabGroups = [], requests = [TabsMove [2, 1, 3] 1]\<rparr>) \<and>
   sortedDecorated_B newURL_ref encodeURIComponent localeCompare_ref
     [\<lparr>tab_id = 1, url = ''https://b.example/x'', pendingUrl = None, index = 0, pinned = False, groupId = - 1\<rparr>,
      \<lparr>tab_id = 2, url = ''https://a.example/'', pendingUrl = None, index = 2, pinned = False, groupId = - 1\<rparr>,
      \<lparr>tab_id = 3, url = ''https://b.example/x'', pendingUrl = None, index = 3, pinned = False, groupId = - 1\<rparr>] =
   Inr [\<lparr>dec_id = 2, originalIndex = 1, hostKey = ''a.example'', sortKey = ''a.example/''\<rparr>,
      \<lparr>dec_id = 1, originalIndex = 0, hostKey = ''b.example'', sortKey = ''b.example/x''\<rparr>,
      \<lparr>dec_id = 3, originalIndex = 2, hostKey = ''b.example'', sortKey = ''b.example/x''\<rparr>] \<and>
   sortedIds_B newURL_ref encodeURIComponent localeCompare_ref
     [\<lparr>tab_id = 2, url = ''https://a.example/'', pendingUrl = None, index = 2, pinned = False, groupId = - 1\<rparr>,
      \<lparr>tab_id = 1, url = ''https://b.example/x'', pendingUrl = None, index = 0, pinned = False, groupId = - 1\<rparr>,
      \<lparr>tab_id = 3, url = ''https://b.example/x'', pendingUrl = None, index = 3, pinned = False, groupId = - 1\<rparr>] = Inr [2, 1, 3]"
proof -
  let ?tabs = "[\<lparr>tab_id = 1, url = ''https://b.example/x'', pendingUrl = None, index = 0, pinned = False, groupId = - 1\<rparr>,
      \<lparr>tab_id = 2, url = ''https://a.example/'', pendingUrl = None, index = 2, pinned = False, groupId = - 1\<rparr>,
      \<lparr>tab_id = 3, url = ''https://b.example/x'', pendingUrl = None, index = 3, pinned = False, groupId = - 1\<rparr>]"
  let ?out = "[\<lparr>dec_id = 2, originalIndex = 1, hostKey = ''a.example'', sortKey = ''a.example/''\<rparr>,
      \<lparr>dec_id = 1, originalIndex = 0, hostKey = ''b.example'', sortKey = ''b.example/x''\<rparr>,
      \<lparr>dec_id = 3, originalIndex = 2, hostKey = ''b.example'', sortKey = ''b.example/x''\<rparr>]"
  let ?arr = "[\<lparr>tab_id = 2, url = ''https://a.example/'', pendingUrl = None, index = 2, pinned = False, groupId = - 1\<rparr>,
      \<lparr>tab_id = 1, url = ''https://b.example/x'', pendingUrl = None, index = 0, pinned = False, groupId = - 1\<rparr>,
      \<lparr>tab_id = 3, url = ''https://b.example/x'', pendingUrl = None, index = 3, pinned = False, groupId = - 1\<rparr>]"
  have a: "sortedDecorated_A newURL_ref encodeURIComponent localeCompare_ref ?tabs = Inr ?out"
    by code_simp
  have b: "sortedDecorated_B newURL_ref encodeURIComponent localeCompare_ref ?tabs = Inr ?out"
    by code_simp
  have r: "arranged ?tabs ?out = ?arr" by (simp add: arranged_def)
  note T = sort_idempotent[OF collation_ref, of newURL_ref encodeURIComponent ?tabs]
  have sa: "sortedIds_A newURL_ref encodeURIComponent localeCompare_ref ?arr = Inr [2, 1, 3]"
    using T[THEN conjunct1, rule_format, OF a, THEN conjunct2, THEN conjunct2, THEN conjunct1]
    unfolding r by simp
  have sb: "sortedIds_B newURL_ref encodeURIComponent localeCompare_ref ?arr = Inr [2, 1, 3]"
    using T[THEN conjunct2, rule_format, OF b, THEN conjunct2, THEN conjunct2, THEN conjunct1]
    unfolding r by simp
  have m: "sortTabsScope_A newURL_ref encodeURIComponent localeCompare_ref ?arr 1 (- 1)
     \<lparr>window = [\<lparr>tab_id = 7, url = ''https://pinned.example/'', pendingUrl = None, index = 0, pinned = True, groupId = - 1\<rparr>,
      \<lparr>tab_id = 2, url = ''https://a.example/'', pendingUrl = None, index = 2, pinned = False, groupId = - 1\<rparr>,
      \<lparr>tab_id = 1, url = ''https://b.example/x'', pendingUrl = None, index = 0, pinned = False, groupId = - 1\<rparr>,
      \<lparr>tab_id = 3, url = ''https://b.example/x'', pendingUrl = None, index = 3, pinned = False, groupId = - 1\<rparr>],
      tabGroups = [], requests = []\<rparr> =
   (None,
     \<lparr>window = [\<lparr>tab_id = 7, url = ''https://pinned.example/'', pendingUrl = None, index = 0, pinned = True, groupId = - 1\<rparr>,
      \<lparr>tab_id = 2, url = ''https://a.example/'', pendingUrl = None, index = 2, pinned = False, groupId = - 1\<rparr>,
      \<lparr>tab_id = 1, url = ''https://b.example/x'', pendingUrl = None, index = 0, pinned = False, groupId = - 1\<rparr>,
      \<lparr>tab_id = 3, url = ''https://b.example/x'', pendingUrl = None, index = 3, pinned = False, groupId = - 1\<rparr>],
      tabGroups = [], requests = [TabsMove [2, 1, 3] 1]\<rparr>)"
    by (simp add: sortTabsScope_A_def sa andThen_def tabs_move_def knownTabs_def del: One_nat_def)
  show ?thesis by (intro conjI collation_ref a r sa m b sb)
qed

lemma upper_letters:
  "c \<in> set ''ABCDEFGHIJKLMNOPQRSTUVWXYZ'' \<Longrightarrow> isUpperAlpha c"
  by (auto simp: isUpperAlpha_def)

lemma map_of_zip_None: "x \<notin> set xs \<Longrightarrow> map_of (zip xs ys) x = None"
  by (auto simp: map_of_eq_None_iff dest: set_zip_leftD)

lemma toLowerChar_not_upper: "\<not> isUpperAlpha c \<Longrightarrow> toLowerChar c = c"
proof -
  assume "\<not> isUpperAlpha c"
  then have "c \<notin> set ''ABCDEFGHIJKLMNOPQRSTUVWXYZ''" using upper_letters by blast
  then have "map_of (zip ''ABCDEFGHIJKLMNOPQRSTUVWXYZ'' ''abcdefghijklmnopqrstuvwxyz'') c = None"
    by (rule map_of_zip_None)
  then show ?thesis by (simp only: toLowerChar_def option.case)
qed

lemma toLowerChar_id:
  "isLowerAlpha c \<or> isDigit c \<or> c \<in> set ''+-.'' \<Longrightarrow> toLowerChar c = c"
  by (rule toLowerChar_not_upper) (auto simp: isLowerAlpha_def isDigit_def isUpperAlpha_def)

lemma toLowerCase_id:
  "list_all (\<lambda>c. isLowerAlpha c \<or> isDigit c \<or> c \<in> set ''+-.'') s \<Longrightarrow> toLowerCase s = s"
  unfolding toLowerCase_def by (induction s) (simp_all add: toLowerChar_id del: set_simps)

lemma splitScheme_lower:
  assumes "lowerScheme s"
  shows "splitScheme (s @ CHR '':'' # r) = Some (s, r)"
proof -
  have all: "list_all (\<lambda>c. isLowerAlpha c \<or> isDigit c \<or> c \<in> set ''+-.'') s"
    and ne: "s \<noteq> []" and hd: "isLowerAlpha (hd s)"
    using assms by (simp_all add: lowerScheme_def)
  have nc: "\<And>c. c \<in> set s \<Longrightarrow> c \<noteq> CHR '':''"
    using all by (auto simp: list_all_iff isLowerAlpha_def isDigit_def)
  have tw: "takeWhile (\<lambda>c. c \<noteq> CHR '':'') (s @ CHR '':'' # r) = s"
    using nc by simp
  have dw: "dropWhile (\<lambda>c. c \<noteq> CHR '':'') (s @ CHR '':'' # r) = CHR '':'' # r"
    using nc by simp
  have sc: "list_all schemeChar s"
    using all by (auto simp: list_all_iff schemeChar_def isAlnum_def)
  show ?thesis
    unfolding splitScheme_def tw dw Let_def using ne hd sc toLowerCase_id[OF all] by simp
qed

lemma if_None_Some: "(if C then None else Some R) = Some u \<Longrightarrow> u = R"
  by (cases C) simp_all

lemma protocol_buildURL: "protocol (buildURL s sp a p q f) = s @ '':''"
  by (simp add: buildURL_def)

lemma host_buildURL: "host (buildURL s True a p q f) = toLowerCase a"
  by (simp add: buildURL_def)

lemma newURL_ref_protocol:
  assumes s: "splitScheme raw = Some (sch, rest)" and u: "newURL_ref raw = Some u"
  shows "protocol u = sch @ '':''"
proof -
  note f = u[unfolded newURL_ref_def s Let_def option.case prod.case]
  show ?thesis by (subst if_None_Some[OF f]) (rule protocol_buildURL)
qed

lemma scheme_faithful_ref: "scheme_faithful newURL_ref"
  unfolding scheme_faithful_def
proof (intro allI impI)
  fix s r u assume a: "lowerScheme s \<and> newURL_ref (s @ '':'' @ r) = Some u"
  then have "splitScheme (s @ '':'' @ r) = Some (s, r)" using splitScheme_lower[of s r] by simp
  with a show "protocol u = s @ '':''" using newURL_ref_protocol by blast
qed

lemma splitScheme_http: "splitScheme (''http://'' @ r) = Some (''http'', ''//'' @ r)"
  using splitScheme_lower[of "''http''" "''//'' @ r"]
  by (simp add: lowerScheme_def isLowerAlpha_def)

lemma placeholder_internal_ref: "placeholder_host newURL_ref ''internal''"
proof -
  have v: "validAuthority True ''internal''"
    by (simp add: validAuthority_def hostChar_def isAlnum_def isDigit_def isUpperAlpha_def
        isLowerAlpha_def)
  have l: "toLowerCase ''internal'' = ''internal''"
    by (simp add: toLowerCase_def toLowerChar_def)
  have e: "\<exists>P Q F. newURL_ref (''http://'' @ ''internal'' @ ''/'' @ p) =
                   Some (buildURL ''http'' True ''internal'' P Q F)" for p
    using splitScheme_http[of "''internal/'' @ p"] v
    by (simp add: newURL_ref_def Let_def startsWith_def) blast
  show ?thesis
    unfolding placeholder_host_def
  proof
    fix p
    from e[of p] obtain P Q F where
      n: "newURL_ref (''http://'' @ ''internal'' @ ''/'' @ p) = Some (buildURL ''http'' True ''internal'' P Q F)"
      by blast
    have "protocol (buildURL ''http'' True ''internal'' P Q F) = ''http:''"
      by (simp add: protocol_buildURL)
    moreover have "host (buildURL ''http'' True ''internal'' P Q F) = ''internal''"
      by (simp only: host_buildURL l)
    ultimately show "\<exists>u. newURL_ref (''http://'' @ ''internal'' @ ''/'' @ p) = Some u \<and>
        protocol u = ''http:'' \<and> host u = ''internal''"
      using n by blast
  qed
qed

lemma placeholder_invalid_ref: "placeholder_host newURL_ref ''invalid''"
proof -
  have v: "validAuthority True ''invalid''"
    by (simp add: validAuthority_def hostChar_def isAlnum_def isDigit_def isUpperAlpha_def
        isLowerAlpha_def)
  have l: "toLowerCase ''invalid'' = ''invalid''"
    by (simp add: toLowerCase_def toLowerChar_def)
  have e: "\<exists>P Q F. newURL_ref (''http://'' @ ''invalid'' @ ''/'' @ p) =
                   Some (buildURL ''http'' True ''invalid'' P Q F)" for p
    using splitScheme_http[of "''invalid/'' @ p"] v
    by (simp add: newURL_ref_def Let_def startsWith_def) blast
  show ?thesis
    unfolding placeholder_host_def
  proof
    fix p
    from e[of p] obtain P Q F where
      n: "newURL_ref (''http://'' @ ''invalid'' @ ''/'' @ p) = Some (buildURL ''http'' True ''invalid'' P Q F)"
      by blast
    have "protocol (buildURL ''http'' True ''invalid'' P Q F) = ''http:''"
      by (simp add: protocol_buildURL)
    moreover have "host (buildURL ''http'' True ''invalid'' P Q F) = ''invalid''"
      by (simp only: host_buildURL l)
    ultimately show "\<exists>u. newURL_ref (''http://'' @ ''invalid'' @ ''/'' @ p) = Some u \<and>
        protocol u = ''http:'' \<and> host u = ''invalid''"
      using n by blast
  qed
qed

subsection \<open>Classification\<close>

lemma cleanHost_spec: "toLowerCase (replaceWWW h) = spec_hostBucket h"
proof -
  have "length ''www.'' = 4" by simp
  then have "startsWith (toLowerCase h) ''www.'' = (toLowerCase (take 4 h) = ''www.'')"
    unfolding startsWith_def toLowerCase_def by (simp only: take_map)
  then show ?thesis
    by (simp add: replaceWWW_def spec_hostBucket_def Let_def)
       (simp add: toLowerCase_def drop_map)
qed

lemma startsWith_split: "startsWith raw p \<Longrightarrow> raw = p @ drop (length p) raw"
  unfolding startsWith_def by (metis append_take_drop_id)

lemma prefix_protocol:
  assumes sf: "scheme_faithful newURL" and u: "newURL raw = Some u"
    and p: "startsWith raw (s @ '':'' @ r)" and l: "lowerScheme s"
  shows "protocol u = s @ '':''"
proof -
  have "raw = s @ '':'' @ (r @ drop (length (s @ '':'' @ r)) raw)"
    using startsWith_split[OF p] by simp
  with u have "newURL (s @ '':'' @ (r @ drop (length (s @ '':'' @ r)) raw)) = Some u" by simp
  with sf l show ?thesis unfolding scheme_faithful_def by blast
qed

lemma lowerScheme_names:
  "lowerScheme ''chrome''" "lowerScheme ''about''" "lowerScheme ''edge''" "lowerScheme ''brave''"
  "lowerScheme ''http''" "lowerScheme ''chrome-extension''"
  by (simp_all add: lowerScheme_def isLowerAlpha_def isDigit_def)

lemma internalPrefix_protocol:
  assumes sf: "scheme_faithful newURL" and u: "newURL raw = Some u" and i: "internalPrefix raw"
  shows "protocol u = ''chrome:'' \<or> protocol u = ''about:'' \<or> protocol u = ''edge:'' \<or>
         protocol u = ''brave:''"
proof -
  from i consider "startsWith raw (''chrome'' @ '':'' @ ''//'')" | "startsWith raw (''about'' @ '':'' @ [])"
    | "startsWith raw (''edge'' @ '':'' @ ''//'')" | "startsWith raw (''brave'' @ '':'' @ ''//'')"
    unfolding internalPrefix_def by auto
  then show ?thesis
  proof cases
    case 1
    from prefix_protocol[OF sf u 1 lowerScheme_names(1)] show ?thesis by simp
  next
    case 2
    from prefix_protocol[OF sf u 2 lowerScheme_names(2)] show ?thesis by simp
  next
    case 3
    from prefix_protocol[OF sf u 3 lowerScheme_names(3)] show ?thesis by simp
  next
    case 4
    from prefix_protocol[OF sf u 4 lowerScheme_names(4)] show ?thesis by simp
  qed
qed

lemma resolve_B_parsed:
  "newURL (rawAddress t) = Some u \<Longrightarrow> resolveTabUrl_B newURL enc t = Inr u"
  by (simp add: resolveTabUrl_B_def)

lemma resolve_A_parsed:
  assumes sf: "scheme_faithful newURL" and u: "newURL (rawAddress t) = Some u"
    and p: "protocol u = ''chrome-extension:'' \<or> protocol u = ''http:'' \<or> protocol u = ''https:''"
  shows "resolveTabUrl_A newURL enc t = Inr u"
proof (cases "startsWith (rawAddress t) ''chrome-extension://''")
  case True
  with u show ?thesis by (simp add: resolveTabUrl_A_def construct_def)
next
  case False
  have "\<not> internalPrefix (rawAddress t)"
  proof
    assume "internalPrefix (rawAddress t)"
    from internalPrefix_protocol[OF sf u this] p show False by auto
  qed
  with False u show ?thesis by (simp add: resolveTabUrl_A_def)
qed

lemma resolve_B_unparsed:
  assumes ph: "placeholder_host newURL ''invalid''" and n: "newURL (rawAddress t) = None"
  shows "\<exists>u. resolveTabUrl_B newURL enc t = Inr u \<and>
             newURL (''http://invalid/'' @ enc (rawAddress t)) = Some u \<and>
             protocol u = ''http:'' \<and> host u = ''invalid'' \<and> cleanHost u = ''invalid''"
proof -
  from ph obtain u where u: "newURL (''http://'' @ ''invalid'' @ ''/'' @ enc (rawAddress t)) = Some u"
    "protocol u = ''http:''" "host u = ''invalid''"
    unfolding placeholder_host_def by blast
  have "cleanHost u = ''invalid''"
    using u(3) by (simp add: cleanHost_def replaceWWW_def toLowerCase_def toLowerChar_def)
  with u n show ?thesis by (simp add: resolveTabUrl_B_def construct_def)
qed

lemma resolve_A_internal:
  assumes ph: "placeholder_host newURL ''internal''" and i: "internalPrefix (rawAddress t)"
    and e: "\<not> startsWith (rawAddress t) ''chrome-extension://''"
  shows "\<exists>u. resolveTabUrl_A newURL enc t = Inr u \<and>
             newURL (''http://internal/'' @ enc (rawAddress t)) = Some u \<and>
             protocol u = ''http:'' \<and> host u = ''internal'' \<and> hostKey_A u = ''internal''"
proof -
  from ph obtain u where u: "newURL (''http://'' @ ''internal'' @ ''/'' @ enc (rawAddress t)) = Some u"
    "protocol u = ''http:''" "host u = ''internal''"
    unfolding placeholder_host_def by blast
  have "hostKey_A u = ''internal''"
    using u(2,3) by (simp add: hostKey_A_def replaceWWW_def toLowerCase_def toLowerChar_def)
  with u i e show ?thesis by (simp add: resolveTabUrl_A_def construct_def)
qed

lemma resolve_A_extension_throws:
  "startsWith (rawAddress t) ''chrome-extension://'' \<Longrightarrow> newURL (rawAddress t) = None \<Longrightarrow>
   resolveTabUrl_A newURL enc t = Inl TypeError"
  by (simp add: resolveTabUrl_A_def construct_def)

text \<open>
  C3, as amended. The effective address is the pending address when there is a non-empty
  one, else the committed one. When it parses with the scheme \<open>chrome-extension:\<close>,
  \<^verbatim>\<open>part_000\<close> gives the tab the bucket key \<open>ext:\<close> followed by the URL's host, and
  \<^verbatim>\<open>background.js\<close>, which has no rule for extension pages, gives it the host itself,
  lower-cased and without a leading \<open>www.\<close>.
\<close>

theorem extension_bucket:
  assumes "scheme_faithful newURL" and "newURL (rawAddress t) = Some u"
    and "protocol u = ''chrome-extension:''"
  shows "(\<forall>p. pendingUrl t = Some p \<and> p \<noteq> [] \<longrightarrow> rawAddress t = p) \<and>
         (pendingUrl t = None \<or> pendingUrl t = Some [] \<longrightarrow> rawAddress t = url t) \<and>
         decorate_A newURL enc t i =
           Inr \<lparr>dec_id = tab_id t, originalIndex = i, hostKey = ''ext:'' @ host u,
                sortKey = (''ext:'' @ host u) @ pathname u @ search u @ hash u\<rparr> \<and>
         decorate_B newURL enc t i =
           Inr \<lparr>dec_id = tab_id t, originalIndex = i, hostKey = spec_hostBucket (host u),
                sortKey = spec_hostBucket (host u) @ pathname u @ search u @ hash u\<rparr>"
proof (intro conjI)
  show "\<forall>p. pendingUrl t = Some p \<and> p \<noteq> [] \<longrightarrow> rawAddress t = p"
    by (simp add: rawAddress_def)
  show "pendingUrl t = None \<or> pendingUrl t = Some [] \<longrightarrow> rawAddress t = url t"
    by (auto simp: rawAddress_def)
  have "resolveTabUrl_A newURL enc t = Inr u"
    using assms by (intro resolve_A_parsed) simp_all
  then show "decorate_A newURL enc t i =
           Inr \<lparr>dec_id = tab_id t, originalIndex = i, hostKey = ''ext:'' @ host u,
                sortKey = (''ext:'' @ host u) @ pathname u @ search u @ hash u\<rparr>"
    using assms(3) by (simp add: decorate_A_def hostKey_A_def)
  have "resolveTabUrl_B newURL enc t = Inr u"
    using assms(2) by (rule resolve_B_parsed)
  then show "decorate_B newURL enc t i =
           Inr \<lparr>dec_id = tab_id t, originalIndex = i, hostKey = spec_hostBucket (host u),
                sortKey = spec_hostBucket (host u) @ pathname u @ search u @ hash u\<rparr>"
    by (simp add: decorate_B_def cleanHost_def cleanHost_spec)
qed

theorem extension_bucket_witness:
  "scheme_faithful newURL_ref \<and>
   rawAddress \<lparr>tab_id = 5, url = ''https://old.example/'', pendingUrl = Some ''chrome-extension://abcdefgh/popup.html?tab=1#top'', index = 3, pinned = False, groupId = - 1\<rparr>
     = ''chrome-extension://abcdefgh/popup.html?tab=1#top'' \<and>
   newURL_ref ''chrome-extension://abcdefgh/popup.html?tab=1#top'' =
     Some \<lparr>protocol = ''chrome-extension:'', host = ''abcdefgh'', pathname = ''/popup.html'', search = ''?tab=1'', hash = ''#top''\<rparr> \<and>
   decorate_A newURL_ref encodeURIComponent
     \<lparr>tab_id = 5, url = ''https://old.example/'', pendingUrl = Some ''chrome-extension://abcdefgh/popup.html?tab=1#top'', index = 3, pinned = False, groupId = - 1\<rparr> 0 =
     Inr \<lparr>dec_id = 5, originalIndex = 0, hostKey = ''ext:abcdefgh'', sortKey = ''ext:abcdefgh/popup.html?tab=1#top''\<rparr>"
proof -
  let ?t = "\<lparr>tab_id = 5, url = ''https://old.example/'', pendingUrl = Some ''chrome-extension://abcdefgh/popup.html?tab=1#top'', index = 3, pinned = False, groupId = - 1\<rparr>"
  let ?u = "\<lparr>protocol = ''chrome-extension:'', host = ''abcdefgh'', pathname = ''/popup.html'', search = ''?tab=1'', hash = ''#top''\<rparr>"
  have r: "rawAddress ?t = ''chrome-extension://abcdefgh/popup.html?tab=1#top''"
    by (simp add: rawAddress_def)
  have n: "newURL_ref ''chrome-extension://abcdefgh/popup.html?tab=1#top'' = Some ?u"
    by code_simp
  have n': "newURL_ref (rawAddress ?t) = Some ?u" using r n by simp
  have p: "protocol ?u = ''chrome-extension:''" by simp
  have d: "decorate_A newURL_ref encodeURIComponent ?t 0 =
     Inr \<lparr>dec_id = 5, originalIndex = 0, hostKey = ''ext:abcdefgh'', sortKey = ''ext:abcdefgh/popup.html?tab=1#top''\<rparr>"
    using extension_bucket[OF scheme_faithful_ref n' p, of encodeURIComponent 0] by simp
  show ?thesis by (intro conjI scheme_faithful_ref r n d)
qed

text \<open>
  The claim as written fails in \<^verbatim>\<open>background.js\<close>: the tab of an extension page gets the
  extension identifier as its bucket key, without \<open>ext:\<close>.
\<close>

theorem extension_bucket_counterexample:
  "newURL_ref ''chrome-extension://abcdefgh/popup.html'' =
     Some \<lparr>protocol = ''chrome-extension:'', host = ''abcdefgh'', pathname = ''/popup.html'', search = [], hash = []\<rparr> \<and>
   decorate_B newURL_ref encodeURIComponent
     \<lparr>tab_id = 1, url = ''chrome-extension://abcdefgh/popup.html'', pendingUrl = None, index = 0, pinned = False, groupId = - 1\<rparr> 0 =
     Inr \<lparr>dec_id = 1, originalIndex = 0, hostKey = ''abcdefgh'', sortKey = ''abcdefgh/popup.html''\<rparr>"
  by code_simp

text \<open>
  C9 fails in \<^verbatim>\<open>part_000\<close>: its \<open>resolveTabUrl\<close> returns \<open>new URL(raw)\<close> for an address that
  begins with \<open>chrome-extension://\<close> before it reaches the \<open>try\<close>. For the tab address
  \<open>chrome-extension://a b/\<close>, which does not parse, the exception leaves \<open>resolveTabUrl\<close>,
  \<open>sortTabsScope\<close> and \<open>sortAllTabs\<close>, and no tab of the window is moved; \<^verbatim>\<open>background.js\<close>
  gives the same tab the placeholder with bucket key \<open>invalid\<close> and sorts the window.
\<close>

theorem malformed_extension_address_aborts:
  "newURL_ref ''chrome-extension://a b/'' = None \<and>
   resolveTabUrl_A newURL_ref encodeURIComponent
     \<lparr>tab_id = 1, url = ''chrome-extension://a b/'', pendingUrl = None, index = 0, pinned = False, groupId = - 1\<rparr> = Inl TypeError \<and>
   sortAllTabs_A newURL_ref encodeURIComponent localeCompare_ref
     \<lparr>window = [\<lparr>tab_id = 1, url = ''chrome-extension://a b/'', pendingUrl = None, index = 0, pinned = False, groupId = - 1\<rparr>,
       \<lparr>tab_id = 2, url = ''https://example.com/'', pendingUrl = None, index = 1, pinned = False, groupId = - 1\<rparr>],
      tabGroups = [], requests = []\<rparr> =
   (Some TypeError,
     \<lparr>window = [\<lparr>tab_id = 1, url = ''chrome-extension://a b/'', pendingUrl = None, index = 0, pinned = False, groupId = - 1\<rparr>,
       \<lparr>tab_id = 2, url = ''https://example.com/'', pendingUrl = None, index = 1, pinned = False, groupId = - 1\<rparr>],
      tabGroups = [], requests = []\<rparr>) \<and>
   resolveTabUrl_B newURL_ref encodeURIComponent
     \<lparr>tab_id = 1, url = ''chrome-extension://a b/'', pendingUrl = None, index = 0, pinned = False, groupId = - 1\<rparr> =
     Inr \<lparr>protocol = ''http:'', host = ''invalid'', pathname = ''/chrome-extension%3A%2F%2Fa%20b%2F'', search = [], hash = []\<rparr> \<and>
   decorate_B newURL_ref encodeURIComponent
     \<lparr>tab_id = 1, url = ''chrome-extension://a b/'', pendingUrl = None, index = 0, pinned = False, groupId = - 1\<rparr> 0 =
     Inr \<lparr>dec_id = 1, originalIndex = 0, hostKey = ''invalid'', sortKey = ''invalid/chrome-extension%3A%2F%2Fa%20b%2F''\<rparr> \<and>
   sortAllTabs_B newURL_ref encodeURIComponent localeCompare_ref
     \<lparr>window = [\<lparr>tab_id = 1, url = ''chrome-extension://a b/'', pendingUrl = None, index = 0, pinned = False, groupId = - 1\<rparr>,
       \<lparr>tab_id = 2, url = ''https://example.com/'', pendingUrl = None, index = 1, pinned = False, groupId = - 1\<rparr>],
      tabGroups = [], requests = []\<rparr> =
   (None,
     \<lparr>window = [\<lparr>tab_id = 2, url = ''https://example.com/'', pendingUrl = None, index = 1, pinned = False, groupId = - 1\<rparr>,
       \<lparr>tab_id = 1, url = ''chrome-extension://a b/'', pendingUrl = None, index = 0, pinned = False, groupId = - 1\<rparr>],
      tabGroups = [], requests = [TabsMove [2, 1] 0]\<rparr>)"
  by code_simp

lemma mapIndexed_cong:
  "(\<And>t i. t \<in> set xs \<Longrightarrow> f t i = g t i) \<Longrightarrow> mapIndexed f i xs = mapIndexed g i xs"
  by (induction xs arbitrary: i) (simp_all split: sum.splits)

lemma decorate_agree:
  assumes sf: "scheme_faithful newURL"
    and e: "\<not> startsWith (rawAddress t) ''chrome-extension://''"
    and c: "(\<exists>u. newURL (rawAddress t) = Some u \<and> (protocol u = ''http:'' \<or> protocol u = ''https:'')) \<or>
            (newURL (rawAddress t) = None \<and> \<not> internalPrefix (rawAddress t))"
  shows "decorate_A newURL enc t i = decorate_B newURL enc t i"
proof -
  have k: "hostKey_A u = cleanHost u" if "protocol u = ''http:'' \<or> protocol u = ''https:''" for u
    using that by (auto simp: hostKey_A_def cleanHost_def)
  from c show ?thesis
  proof
    assume "\<exists>u. newURL (rawAddress t) = Some u \<and> (protocol u = ''http:'' \<or> protocol u = ''https:'')"
    then obtain u where u: "newURL (rawAddress t) = Some u"
      and p: "protocol u = ''http:'' \<or> protocol u = ''https:''" by blast
    have "resolveTabUrl_A newURL enc t = Inr u" using sf u p by (intro resolve_A_parsed) simp_all
    moreover have "resolveTabUrl_B newURL enc t = Inr u" using u by (rule resolve_B_parsed)
    ultimately show ?thesis using k[OF p] by (simp add: decorate_A_def decorate_B_def)
  next
    assume n: "newURL (rawAddress t) = None \<and> \<not> internalPrefix (rawAddress t)"
    let ?s = "''http://invalid/'' @ enc (rawAddress t)"
    have ra: "resolveTabUrl_A newURL enc t = construct newURL ?s"
      using n e by (simp add: resolveTabUrl_A_def)
    have rb: "resolveTabUrl_B newURL enc t = construct newURL ?s"
      using n by (simp add: resolveTabUrl_B_def)
    show ?thesis
    proof (cases "newURL ?s")
      case None
      with ra rb show ?thesis by (simp add: decorate_A_def decorate_B_def construct_def)
    next
      case (Some u)
      have "startsWith ?s (''http'' @ '':'' @ ''//invalid/'')" by (simp add: startsWith_def)
      from prefix_protocol[OF sf Some this lowerScheme_names(5)] have "protocol u = ''http:''" by simp
      then have "hostKey_A u = cleanHost u" using k by blast
      with ra rb Some show ?thesis by (simp add: decorate_A_def decorate_B_def construct_def)
    qed
  qed
qed

text \<open>
  C10, as amended. On a scope whose tabs have addresses that do not begin with
  \<open>chrome-extension://\<close> and either parse with the scheme \<open>http:\<close> or \<open>https:\<close>, or do not
  parse and begin with none of \<open>chrome://\<close>, \<open>about:\<close>, \<open>edge://\<close>, \<open>brave://\<close>, the two files
  compute the same bucket keys and sort keys, the same order and the same move request.
\<close>

theorem variants_agree:
  assumes "scheme_faithful newURL"
    and "\<forall>t\<in>set tabs. \<not> startsWith (rawAddress t) ''chrome-extension://'' \<and>
          ((\<exists>u. newURL (rawAddress t) = Some u \<and> (protocol u = ''http:'' \<or> protocol u = ''https:'')) \<or>
           (newURL (rawAddress t) = None \<and> \<not> internalPrefix (rawAddress t)))"
  shows "(\<forall>t\<in>set tabs. \<forall>i. decorate_A newURL enc t i = decorate_B newURL enc t i) \<and>
         sortedDecorated_A newURL enc cmp tabs = sortedDecorated_B newURL enc cmp tabs \<and>
         sortedIds_A newURL enc cmp tabs = sortedIds_B newURL enc cmp tabs"
proof -
  have d: "decorate_A newURL enc t i = decorate_B newURL enc t i" if "t \<in> set tabs" for t i
    using assms(2) that by (intro decorate_agree[OF assms(1)]) blast+
  then have "mapIndexed (decorate_A newURL enc) 0 tabs = mapIndexed (decorate_B newURL enc) 0 tabs"
    by (rule mapIndexed_cong)
  then have s: "sortedDecorated_A newURL enc cmp tabs = sortedDecorated_B newURL enc cmp tabs"
    by (simp add: sortedDecorated_A_def sortedDecorated_B_def)
  then have "sortedIds_A newURL enc cmp tabs = sortedIds_B newURL enc cmp tabs"
    by (simp add: sortedIds_A_def sortedIds_B_def)
  with d s show ?thesis by blast
qed

theorem variants_agree_witness:
  "scheme_faithful newURL_ref \<and>
   newURL_ref ''https://www.example.com/a'' =
     Some \<lparr>protocol = ''https:'', host = ''www.example.com'', pathname = ''/a'', search = [], hash = []\<rparr> \<and>
   newURL_ref ''not a url'' = None \<and>
   sortedDecorated_A newURL_ref encodeURIComponent localeCompare_ref
     [\<lparr>tab_id = 1, url = ''https://www.example.com/a'', pendingUrl = None, index = 0, pinned = False, groupId = - 1\<rparr>,
      \<lparr>tab_id = 2, url = ''not a url'', pendingUrl = None, index = 1, pinned = False, groupId = - 1\<rparr>] =
   Inr [\<lparr>dec_id = 1, originalIndex = 0, hostKey = ''example.com'', sortKey = ''example.com/a''\<rparr>,
      \<lparr>dec_id = 2, originalIndex = 1, hostKey = ''invalid'', sortKey = ''invalid/not%20a%20url''\<rparr>] \<and>
   sortedDecorated_B newURL_ref encodeURIComponent localeCompare_ref
     [\<lparr>tab_id = 1, url = ''https://www.example.com/a'', pendingUrl = None, index = 0, pinned = False, groupId = - 1\<rparr>,
      \<lparr>tab_id = 2, url = ''not a url'', pendingUrl = None, index = 1, pinned = False, groupId = - 1\<rparr>] =
   Inr [\<lparr>dec_id = 1, originalIndex = 0, hostKey = ''example.com'', sortKey = ''example.com/a''\<rparr>,
      \<lparr>dec_id = 2, originalIndex = 1, hostKey = ''invalid'', sortKey = ''invalid/not%20a%20url''\<rparr>]"
proof -
  let ?tabs = "[\<lparr>tab_id = 1, url = ''https://www.example.com/a'', pendingUrl = None, index = 0, pinned = False, groupId = - 1\<rparr>,
      \<lparr>tab_id = 2, url = ''not a url'', pendingUrl = None, index = 1, pinned = False, groupId = - 1\<rparr>]"
  let ?out = "[\<lparr>dec_id = 1, originalIndex = 0, hostKey = ''example.com'', sortKey = ''example.com/a''\<rparr>,
      \<lparr>dec_id = 2, originalIndex = 1, hostKey = ''invalid'', sortKey = ''invalid/not%20a%20url''\<rparr>]"
  have n1: "newURL_ref ''https://www.example.com/a'' =
     Some \<lparr>protocol = ''https:'', host = ''www.example.com'', pathname = ''/a'', search = [], hash = []\<rparr>"
    by code_simp
  have n2: "newURL_ref ''not a url'' = None" by code_simp
  have h: "\<forall>t\<in>set ?tabs. \<not> startsWith (rawAddress t) ''chrome-extension://'' \<and>
          ((\<exists>u. newURL_ref (rawAddress t) = Some u \<and> (protocol u = ''http:'' \<or> protocol u = ''https:'')) \<or>
           (newURL_ref (rawAddress t) = None \<and> \<not> internalPrefix (rawAddress t)))"
    by (simp add: rawAddress_def n1 n2 startsWith_def internalPrefix_def)
  have a: "sortedDecorated_A newURL_ref encodeURIComponent localeCompare_ref ?tabs = Inr ?out"
    by code_simp
  have b: "sortedDecorated_B newURL_ref encodeURIComponent localeCompare_ref ?tabs = Inr ?out"
    using variants_agree[OF scheme_faithful_ref h, of encodeURIComponent localeCompare_ref] a
    by simp
  show ?thesis by (intro conjI scheme_faithful_ref n1 n2 a b)
qed

text \<open>
  The claim as written fails: the address \<open>chrome://a b\<close> does not begin with
  \<open>chrome-extension://\<close> and does not parse, and the two files give it different keys.
\<close>

theorem variants_agree_counterexample:
  "\<not> startsWith ''chrome://a b'' ''chrome-extension://'' \<and>
   newURL_ref ''chrome://a b'' = None \<and>
   decorate_A newURL_ref encodeURIComponent
     \<lparr>tab_id = 1, url = ''chrome://a b'', pendingUrl = None, index = 0, pinned = False, groupId = - 1\<rparr> 0 =
     Inr \<lparr>dec_id = 1, originalIndex = 0, hostKey = ''internal'', sortKey = ''internal/chrome%3A%2F%2Fa%20b''\<rparr> \<and>
   decorate_B newURL_ref encodeURIComponent
     \<lparr>tab_id = 1, url = ''chrome://a b'', pendingUrl = None, index = 0, pinned = False, groupId = - 1\<rparr> 0 =
     Inr \<lparr>dec_id = 1, originalIndex = 0, hostKey = ''invalid'', sortKey = ''invalid/chrome%3A%2F%2Fa%20b''\<rparr>"
  by code_simp

lemma http_decoration:
  assumes sf: "scheme_faithful newURL" and u: "newURL (rawAddress t) = Some u"
    and p: "protocol u = ''http:'' \<or> protocol u = ''https:''"
  shows "decorate_A newURL enc t i = Inr (spec_decoration (\<lambda>u. spec_hostBucket (host u)) t i u)"
    and "decorate_B newURL enc t i = Inr (spec_decoration (\<lambda>u. spec_hostBucket (host u)) t i u)"
proof -
  have "resolveTabUrl_A newURL enc t = Inr u" using sf u p by (intro resolve_A_parsed) simp_all
  moreover have "hostKey_A u = spec_hostBucket (host u)"
    using p by (auto simp: hostKey_A_def cleanHost_spec)
  ultimately show "decorate_A newURL enc t i = Inr (spec_decoration (\<lambda>u. spec_hostBucket (host u)) t i u)"
    by (simp add: decorate_A_def spec_decoration_def)
  have "resolveTabUrl_B newURL enc t = Inr u" using u by (rule resolve_B_parsed)
  then show "decorate_B newURL enc t i = Inr (spec_decoration (\<lambda>u. spec_hostBucket (host u)) t i u)"
    by (simp add: decorate_B_def spec_decoration_def cleanHost_def cleanHost_spec)
qed

text \<open>The three tabs of the scenario, for a decorating callback that gives them these keys.\<close>

lemma scenario_order:
  assumes c: "collation cmp"
    and da: "\<And>i. f ta i = Inr \<lparr>dec_id = tab_id ta, originalIndex = i, hostKey = ''example.com'', sortKey = ''example.com/a''\<rparr>"
    and db: "\<And>i. f tb i = Inr \<lparr>dec_id = tab_id tb, originalIndex = i, hostKey = ''example.com'', sortKey = ''example.com/b''\<rparr>"
    and dc: "\<And>i. f tc i = Inr \<lparr>dec_id = tab_id tc, originalIndex = i, hostKey = ''other.com'', sortKey = ''other.com/x''\<rparr>"
    and ho: "cmp ''example.com'' ''other.com'' < 0"
    and ab: "cmp ''example.com/a'' ''example.com/b'' < 0"
    and t: "tabs \<in> set [[ta, tb, tc], [ta, tc, tb], [tb, ta, tc], [tb, tc, ta], [tc, ta, tb], [tc, tb, ta]]"
  shows "\<exists>ds. mapIndexed f 0 tabs = Inr ds \<and>
           map dec_id (sortBy (compareDecorated cmp) ds) = [tab_id ta, tab_id tb, tab_id tc]"
proof -
  have oh: "0 < cmp ''other.com'' ''example.com''" using collation_flip[OF c] ho by simp
  have ba: "0 < cmp ''example.com/b'' ''example.com/a''" using collation_flip[OF c] ab by simp
  have r: "cmp ''example.com'' ''example.com'' = 0" "cmp ''other.com'' ''other.com'' = 0"
    by (simp_all add: collation_refl[OF c])
  have ab': "compareDecorated cmp \<lparr>dec_id = tab_id ta, originalIndex = i, hostKey = ''example.com'', sortKey = ''example.com/a''\<rparr>
                \<lparr>dec_id = tab_id tb, originalIndex = j, hostKey = ''example.com'', sortKey = ''example.com/b''\<rparr> \<le> 0" for i j
    using ab r by (simp add: compareDecorated_def)
  have ba': "\<not> compareDecorated cmp \<lparr>dec_id = tab_id tb, originalIndex = i, hostKey = ''example.com'', sortKey = ''example.com/b''\<rparr>
                \<lparr>dec_id = tab_id ta, originalIndex = j, hostKey = ''example.com'', sortKey = ''example.com/a''\<rparr> \<le> 0" for i j
    using ba r by (simp add: compareDecorated_def)
  have ac': "compareDecorated cmp \<lparr>dec_id = tab_id ta, originalIndex = i, hostKey = ''example.com'', sortKey = ''example.com/a''\<rparr>
                \<lparr>dec_id = tab_id tc, originalIndex = j, hostKey = ''other.com'', sortKey = ''other.com/x''\<rparr> \<le> 0" for i j
    using ho by (simp add: compareDecorated_def)
  have ca': "\<not> compareDecorated cmp \<lparr>dec_id = tab_id tc, originalIndex = i, hostKey = ''other.com'', sortKey = ''other.com/x''\<rparr>
                \<lparr>dec_id = tab_id ta, originalIndex = j, hostKey = ''example.com'', sortKey = ''example.com/a''\<rparr> \<le> 0" for i j
    using oh by (simp add: compareDecorated_def)
  have bc': "compareDecorated cmp \<lparr>dec_id = tab_id tb, originalIndex = i, hostKey = ''example.com'', sortKey = ''example.com/b''\<rparr>
                \<lparr>dec_id = tab_id tc, originalIndex = j, hostKey = ''other.com'', sortKey = ''other.com/x''\<rparr> \<le> 0" for i j
    using ho by (simp add: compareDecorated_def)
  have cb': "\<not> compareDecorated cmp \<lparr>dec_id = tab_id tc, originalIndex = i, hostKey = ''other.com'', sortKey = ''other.com/x''\<rparr>
                \<lparr>dec_id = tab_id tb, originalIndex = j, hostKey = ''example.com'', sortKey = ''example.com/b''\<rparr> \<le> 0" for i j
    using oh by (simp add: compareDecorated_def)
  from t consider "tabs = [ta, tb, tc]" | "tabs = [ta, tc, tb]" | "tabs = [tb, ta, tc]"
    | "tabs = [tb, tc, ta]" | "tabs = [tc, ta, tb]" | "tabs = [tc, tb, ta]" by auto
  then show ?thesis
    by cases (simp_all add: da db dc ab' ba' ac' ca' bc' cb' del: One_nat_def)
qed

text \<open>
  C4. For a tab whose effective address parses with the scheme \<open>http:\<close> or \<open>https:\<close>, either
  file gives the bucket key \<open>spec_hostBucket\<close> of the URL's host: the host lower-cased,
  without one leading \<open>www.\<close>. For the three addresses of the scenario, parsed as the URL
  Standard parses them and collated with \<open>example.com\<close> before \<open>other.com\<close> and \<open>/a\<close> before
  \<open>/b\<close>, the bucket keys are \<open>example.com\<close>, \<open>example.com\<close>, \<open>other.com\<close>, and from every order
  of the three tabs the move request lists the \<open>/a\<close> tab, the \<open>/b\<close> tab, the \<open>other.com\<close> tab.
\<close>

theorem http_bucket:
  assumes "scheme_faithful newURL"
  shows
  "(\<forall>t u i. newURL (rawAddress t) = Some u \<and> (protocol u = ''http:'' \<or> protocol u = ''https:'') \<longrightarrow>
       decorate_A newURL enc t i = Inr (spec_decoration (\<lambda>u. spec_hostBucket (host u)) t i u) \<and>
       decorate_B newURL enc t i = Inr (spec_decoration (\<lambda>u. spec_hostBucket (host u)) t i u)) \<and>
   (collation cmp \<and>
       newURL ''https://www.example.com/a'' = Some \<lparr>protocol = ''https:'', host = ''www.example.com'', pathname = ''/a'', search = [], hash = []\<rparr> \<and>
       newURL ''https://example.com/b'' = Some \<lparr>protocol = ''https:'', host = ''example.com'', pathname = ''/b'', search = [], hash = []\<rparr> \<and>
       newURL ''https://other.com/x'' = Some \<lparr>protocol = ''https:'', host = ''other.com'', pathname = ''/x'', search = [], hash = []\<rparr> \<and>
       rawAddress ta = ''https://www.example.com/a'' \<and> rawAddress tb = ''https://example.com/b'' \<and> rawAddress tc = ''https://other.com/x'' \<and>
       cmp ''example.com'' ''other.com'' < 0 \<and> cmp ''example.com/a'' ''example.com/b'' < 0 \<longrightarrow>
       (\<forall>i. decorate_A newURL enc ta i = Inr \<lparr>dec_id = tab_id ta, originalIndex = i, hostKey = ''example.com'', sortKey = ''example.com/a''\<rparr>) \<and>
       (\<forall>i. decorate_A newURL enc tb i = Inr \<lparr>dec_id = tab_id tb, originalIndex = i, hostKey = ''example.com'', sortKey = ''example.com/b''\<rparr>) \<and>
       (\<forall>i. decorate_A newURL enc tc i = Inr \<lparr>dec_id = tab_id tc, originalIndex = i, hostKey = ''other.com'', sortKey = ''other.com/x''\<rparr>) \<and>
       (\<forall>tabs\<in>set [[ta, tb, tc], [ta, tc, tb], [tb, ta, tc], [tb, tc, ta], [tc, ta, tb], [tc, tb, ta]].
          sortedIds_A newURL enc cmp tabs = Inr [tab_id ta, tab_id tb, tab_id tc]) \<and>
       (\<forall>i. decorate_B newURL enc ta i = Inr \<lparr>dec_id = tab_id ta, originalIndex = i, hostKey = ''example.com'', sortKey = ''example.com/a''\<rparr>) \<and>
       (\<forall>i. decorate_B newURL enc tb i = Inr \<lparr>dec_id = tab_id tb, originalIndex = i, hostKey = ''example.com'', sortKey = ''example.com/b''\<rparr>) \<and>
       (\<forall>i. decorate_B newURL enc tc i = Inr \<lparr>dec_id = tab_id tc, originalIndex = i, hostKey = ''other.com'', sortKey = ''other.com/x''\<rparr>) \<and>
       (\<forall>tabs\<in>set [[ta, tb, tc], [ta, tc, tb], [tb, ta, tc], [tb, tc, ta], [tc, ta, tb], [tc, tb, ta]].
          sortedIds_B newURL enc cmp tabs = Inr [tab_id ta, tab_id tb, tab_id tc]))"
proof -
  have G: "(\<forall>t u i. newURL (rawAddress t) = Some u \<and> (protocol u = ''http:'' \<or> protocol u = ''https:'') \<longrightarrow>
       decorate_A newURL enc t i = Inr (spec_decoration (\<lambda>u. spec_hostBucket (host u)) t i u) \<and>
       decorate_B newURL enc t i = Inr (spec_decoration (\<lambda>u. spec_hostBucket (host u)) t i u))"
  proof (intro allI impI conjI)
    fix t u i
    assume a: "newURL (rawAddress t) = Some u \<and> (protocol u = ''http:'' \<or> protocol u = ''https:'')"
    show "decorate_A newURL enc t i = Inr (spec_decoration (\<lambda>u. spec_hostBucket (host u)) t i u)"
      using a by (intro http_decoration(1)[OF assms]) blast+
    show "decorate_B newURL enc t i = Inr (spec_decoration (\<lambda>u. spec_hostBucket (host u)) t i u)"
      using a by (intro http_decoration(2)[OF assms]) blast+
  qed
  have S: "(\<forall>i. decorate_A newURL enc ta i = Inr \<lparr>dec_id = tab_id ta, originalIndex = i, hostKey = ''example.com'', sortKey = ''example.com/a''\<rparr>) \<and>
       (\<forall>i. decorate_A newURL enc tb i = Inr \<lparr>dec_id = tab_id tb, originalIndex = i, hostKey = ''example.com'', sortKey = ''example.com/b''\<rparr>) \<and>
       (\<forall>i. decorate_A newURL enc tc i = Inr \<lparr>dec_id = tab_id tc, originalIndex = i, hostKey = ''other.com'', sortKey = ''other.com/x''\<rparr>) \<and>
       (\<forall>tabs\<in>set [[ta, tb, tc], [ta, tc, tb], [tb, ta, tc], [tb, tc, ta], [tc, ta, tb], [tc, tb, ta]].
          sortedIds_A newURL enc cmp tabs = Inr [tab_id ta, tab_id tb, tab_id tc]) \<and>
       (\<forall>i. decorate_B newURL enc ta i = Inr \<lparr>dec_id = tab_id ta, originalIndex = i, hostKey = ''example.com'', sortKey = ''example.com/a''\<rparr>) \<and>
       (\<forall>i. decorate_B newURL enc tb i = Inr \<lparr>dec_id = tab_id tb, originalIndex = i, hostKey = ''example.com'', sortKey = ''example.com/b''\<rparr>) \<and>
       (\<forall>i. decorate_B newURL enc tc i = Inr \<lparr>dec_id = tab_id tc, originalIndex = i, hostKey = ''other.com'', sortKey = ''other.com/x''\<rparr>) \<and>
       (\<forall>tabs\<in>set [[ta, tb, tc], [ta, tc, tb], [tb, ta, tc], [tb, tc, ta], [tc, ta, tb], [tc, tb, ta]].
          sortedIds_B newURL enc cmp tabs = Inr [tab_id ta, tab_id tb, tab_id tc])"
    if h: "collation cmp \<and>
       newURL ''https://www.example.com/a'' = Some \<lparr>protocol = ''https:'', host = ''www.example.com'', pathname = ''/a'', search = [], hash = []\<rparr> \<and>
       newURL ''https://example.com/b'' = Some \<lparr>protocol = ''https:'', host = ''example.com'', pathname = ''/b'', search = [], hash = []\<rparr> \<and>
       newURL ''https://other.com/x'' = Some \<lparr>protocol = ''https:'', host = ''other.com'', pathname = ''/x'', search = [], hash = []\<rparr> \<and>
       rawAddress ta = ''https://www.example.com/a'' \<and> rawAddress tb = ''https://example.com/b'' \<and> rawAddress tc = ''https://other.com/x'' \<and>
       cmp ''example.com'' ''other.com'' < 0 \<and> cmp ''example.com/a'' ''example.com/b'' < 0"
  proof -
    have sa: "spec_hostBucket ''www.example.com'' = ''example.com''"
      and sb: "spec_hostBucket ''example.com'' = ''example.com''"
      and sc: "spec_hostBucket ''other.com'' = ''other.com''"
      by (simp_all add: spec_hostBucket_def toLowerCase_def toLowerChar_def startsWith_def)
    have ua: "newURL (rawAddress ta) = Some \<lparr>protocol = ''https:'', host = ''www.example.com'', pathname = ''/a'', search = [], hash = []\<rparr>"
      and ub: "newURL (rawAddress tb) = Some \<lparr>protocol = ''https:'', host = ''example.com'', pathname = ''/b'', search = [], hash = []\<rparr>"
      and uc: "newURL (rawAddress tc) = Some \<lparr>protocol = ''https:'', host = ''other.com'', pathname = ''/x'', search = [], hash = []\<rparr>"
      using h by simp_all
    have c: "collation cmp" and ho: "cmp ''example.com'' ''other.com'' < 0"
      and ab: "cmp ''example.com/a'' ''example.com/b'' < 0" using h by blast+
    have Aa: "decorate_A newURL enc ta i = Inr \<lparr>dec_id = tab_id ta, originalIndex = i, hostKey = ''example.com'', sortKey = ''example.com/a''\<rparr>" for i
      using http_decoration(1)[OF assms ua, of enc i] by (simp add: spec_decoration_def sa)
    have Ab: "decorate_A newURL enc tb i = Inr \<lparr>dec_id = tab_id tb, originalIndex = i, hostKey = ''example.com'', sortKey = ''example.com/b''\<rparr>" for i
      using http_decoration(1)[OF assms ub, of enc i] by (simp add: spec_decoration_def sb)
    have Ac: "decorate_A newURL enc tc i = Inr \<lparr>dec_id = tab_id tc, originalIndex = i, hostKey = ''other.com'', sortKey = ''other.com/x''\<rparr>" for i
      using http_decoration(1)[OF assms uc, of enc i] by (simp add: spec_decoration_def sc)
    have Ba: "decorate_B newURL enc ta i = Inr \<lparr>dec_id = tab_id ta, originalIndex = i, hostKey = ''example.com'', sortKey = ''example.com/a''\<rparr>" for i
      using http_decoration(2)[OF assms ua, of enc i] by (simp add: spec_decoration_def sa)
    have Bb: "decorate_B newURL enc tb i = Inr \<lparr>dec_id = tab_id tb, originalIndex = i, hostKey = ''example.com'', sortKey = ''example.com/b''\<rparr>" for i
      using http_decoration(2)[OF assms ub, of enc i] by (simp add: spec_decoration_def sb)
    have Bc: "decorate_B newURL enc tc i = Inr \<lparr>dec_id = tab_id tc, originalIndex = i, hostKey = ''other.com'', sortKey = ''other.com/x''\<rparr>" for i
      using http_decoration(2)[OF assms uc, of enc i] by (simp add: spec_decoration_def sc)
    have oA: "\<forall>tabs\<in>set [[ta, tb, tc], [ta, tc, tb], [tb, ta, tc], [tb, tc, ta], [tc, ta, tb], [tc, tb, ta]].
            sortedIds_A newURL enc cmp tabs = Inr [tab_id ta, tab_id tb, tab_id tc]"
    proof
      fix tabs assume t: "tabs \<in> set [[ta, tb, tc], [ta, tc, tb], [tb, ta, tc], [tb, tc, ta], [tc, ta, tb], [tc, tb, ta]]"
      from scenario_order[of cmp "decorate_A newURL enc" ta tb tc tabs, OF c Aa Ab Ac ho ab t]
      show "sortedIds_A newURL enc cmp tabs = Inr [tab_id ta, tab_id tb, tab_id tc]"
        by (auto simp: sortedIds_A_def sortedDecorated_A_def)
    qed
    have oB: "\<forall>tabs\<in>set [[ta, tb, tc], [ta, tc, tb], [tb, ta, tc], [tb, tc, ta], [tc, ta, tb], [tc, tb, ta]].
            sortedIds_B newURL enc cmp tabs = Inr [tab_id ta, tab_id tb, tab_id tc]"
    proof
      fix tabs assume t: "tabs \<in> set [[ta, tb, tc], [ta, tc, tb], [tb, ta, tc], [tb, tc, ta], [tc, ta, tb], [tc, tb, ta]]"
      from scenario_order[of cmp "decorate_B newURL enc" ta tb tc tabs, OF c Ba Bb Bc ho ab t]
      show "sortedIds_B newURL enc cmp tabs = Inr [tab_id ta, tab_id tb, tab_id tc]"
        by (auto simp: sortedIds_B_def sortedDecorated_B_def)
    qed
    show ?thesis
      by (intro conjI allI Aa Ab Ac oA Ba Bb Bc oB)
  qed
  show ?thesis by (rule conjI[OF G impI[OF S]])
qed

theorem http_bucket_witness:
  "scheme_faithful newURL_ref \<and> collation localeCompare_ref \<and>
   newURL_ref ''https://www.example.com/a'' = Some \<lparr>protocol = ''https:'', host = ''www.example.com'', pathname = ''/a'', search = [], hash = []\<rparr> \<and>
   newURL_ref ''https://example.com/b'' = Some \<lparr>protocol = ''https:'', host = ''example.com'', pathname = ''/b'', search = [], hash = []\<rparr> \<and>
   newURL_ref ''https://other.com/x'' = Some \<lparr>protocol = ''https:'', host = ''other.com'', pathname = ''/x'', search = [], hash = []\<rparr> \<and>
   localeCompare_ref ''example.com'' ''other.com'' < 0 \<and>
   localeCompare_ref ''example.com/a'' ''example.com/b'' < 0 \<and>
   decorate_A newURL_ref encodeURIComponent
     \<lparr>tab_id = 1, url = ''https://www.example.com/a'', pendingUrl = None, index = 2, pinned = False, groupId = - 1\<rparr> 0 =
     Inr \<lparr>dec_id = 1, originalIndex = 0, hostKey = ''example.com'', sortKey = ''example.com/a''\<rparr> \<and>
   sortedIds_A newURL_ref encodeURIComponent localeCompare_ref
     [\<lparr>tab_id = 3, url = ''https://other.com/x'', pendingUrl = None, index = 0, pinned = False, groupId = - 1\<rparr>,
      \<lparr>tab_id = 2, url = ''https://example.com/b'', pendingUrl = None, index = 1, pinned = False, groupId = - 1\<rparr>,
      \<lparr>tab_id = 1, url = ''https://www.example.com/a'', pendingUrl = None, index = 2, pinned = False, groupId = - 1\<rparr>] = Inr [1, 2, 3] \<and>
   sortedIds_B newURL_ref encodeURIComponent localeCompare_ref
     [\<lparr>tab_id = 3, url = ''https://other.com/x'', pendingUrl = None, index = 0, pinned = False, groupId = - 1\<rparr>,
      \<lparr>tab_id = 2, url = ''https://example.com/b'', pendingUrl = None, index = 1, pinned = False, groupId = - 1\<rparr>,
      \<lparr>tab_id = 1, url = ''https://www.example.com/a'', pendingUrl = None, index = 2, pinned = False, groupId = - 1\<rparr>] = Inr [1, 2, 3]"
proof -
  let ?ta = "\<lparr>tab_id = 1, url = ''https://www.example.com/a'', pendingUrl = None, index = 2, pinned = False, groupId = - 1\<rparr>"
  let ?tb = "\<lparr>tab_id = 2, url = ''https://example.com/b'', pendingUrl = None, index = 1, pinned = False, groupId = - 1\<rparr>"
  let ?tc = "\<lparr>tab_id = 3, url = ''https://other.com/x'', pendingUrl = None, index = 0, pinned = False, groupId = - 1\<rparr>"
  have na: "newURL_ref ''https://www.example.com/a'' = Some \<lparr>protocol = ''https:'', host = ''www.example.com'', pathname = ''/a'', search = [], hash = []\<rparr>" by code_simp
  have nb: "newURL_ref ''https://example.com/b'' = Some \<lparr>protocol = ''https:'', host = ''example.com'', pathname = ''/b'', search = [], hash = []\<rparr>" by code_simp
  have nc: "newURL_ref ''https://other.com/x'' = Some \<lparr>protocol = ''https:'', host = ''other.com'', pathname = ''/x'', search = [], hash = []\<rparr>" by code_simp
  have l1: "localeCompare_ref ''example.com'' ''other.com'' < 0" by code_simp
  have l2: "localeCompare_ref ''example.com/a'' ''example.com/b'' < 0" by code_simp
  have ra: "rawAddress ?ta = ''https://www.example.com/a''" and rb: "rawAddress ?tb = ''https://example.com/b''" and rc: "rawAddress ?tc = ''https://other.com/x''"
    by (simp_all add: rawAddress_def)
  note T = http_bucket[OF scheme_faithful_ref, of encodeURIComponent localeCompare_ref ?ta ?tb ?tc]
  have S: "collation localeCompare_ref \<and>
       newURL_ref ''https://www.example.com/a'' = Some \<lparr>protocol = ''https:'', host = ''www.example.com'', pathname = ''/a'', search = [], hash = []\<rparr> \<and>
       newURL_ref ''https://example.com/b'' = Some \<lparr>protocol = ''https:'', host = ''example.com'', pathname = ''/b'', search = [], hash = []\<rparr> \<and>
       newURL_ref ''https://other.com/x'' = Some \<lparr>protocol = ''https:'', host = ''other.com'', pathname = ''/x'', search = [], hash = []\<rparr> \<and>
       rawAddress ?ta = ''https://www.example.com/a'' \<and> rawAddress ?tb = ''https://example.com/b'' \<and> rawAddress ?tc = ''https://other.com/x'' \<and>
       localeCompare_ref ''example.com'' ''other.com'' < 0 \<and>
       localeCompare_ref ''example.com/a'' ''example.com/b'' < 0"
    by (intro conjI collation_ref na nb nc ra rb rc l1 l2)
  note R = T[THEN conjunct2, rule_format, OF S]
  have d: "decorate_A newURL_ref encodeURIComponent ?ta 0 =
     Inr \<lparr>dec_id = 1, originalIndex = 0, hostKey = ''example.com'', sortKey = ''example.com/a''\<rparr>"
    using R[THEN conjunct1, rule_format, of 0] by simp
  have sA: "sortedIds_A newURL_ref encodeURIComponent localeCompare_ref [?tc, ?tb, ?ta] = Inr [1, 2, 3]"
    using R[THEN conjunct2, THEN conjunct2, THEN conjunct2, THEN conjunct1, rule_format,
        of "[?tc, ?tb, ?ta]"] by simp
  have sB: "sortedIds_B newURL_ref encodeURIComponent localeCompare_ref [?tc, ?tb, ?ta] = Inr [1, 2, 3]"
    using R[THEN conjunct2, THEN conjunct2, THEN conjunct2, THEN conjunct2, THEN conjunct2,
        THEN conjunct2, THEN conjunct2, rule_format, of "[?tc, ?tb, ?ta]"] by simp
  show ?thesis by (intro conjI scheme_faithful_ref collation_ref na nb nc l1 l2 d sA sB)
qed

lemma collation_eq_le:
  assumes c: "collation cmp" and "cmp a b \<le> 0" and "cmp b a \<le> 0"
  shows "cmp a b = 0"
  using collation_flip[OF c, of a b] assms(2,3) by linarith

text \<open>The entries of one bucket are next to each other.\<close>

lemma bucket_contiguous:
  assumes c: "collation cmp" and s: "sorted_wrt (spec_precedes cmp) out"
    and ij: "i < j" and jk: "j < k" and k: "k < length out"
    and hi: "cmp (hostKey (out ! i)) b = 0" and hk: "cmp (hostKey (out ! k)) b = 0"
  shows "cmp (hostKey (out ! j)) b = 0"
proof -
  have "spec_precedes cmp (out ! i) (out ! j)" "spec_precedes cmp (out ! j) (out ! k)"
    using s ij jk k by (simp_all add: sorted_wrt_iff_nth_less)
  then have l1: "cmp (hostKey (out ! i)) (hostKey (out ! j)) \<le> 0"
    and l2: "cmp (hostKey (out ! j)) (hostKey (out ! k)) \<le> 0"
    unfolding spec_precedes_def by linarith+
  have "cmp b (hostKey (out ! i)) \<le> 0" using collation_sym0[OF c hi] by simp
  with l1 have a: "cmp b (hostKey (out ! j)) \<le> 0" using collation_trans[OF c] by blast
  have "cmp (hostKey (out ! k)) b \<le> 0" using hk by simp
  with l2 have "cmp (hostKey (out ! j)) b \<le> 0" using collation_trans[OF c] by blast
  with a show ?thesis using collation_eq_le[OF c] by blast
qed

lemma bucket_adjacent:
  assumes c: "collation cmp" and s: "sorted_wrt (spec_precedes cmp) out"
    and d: "distinct (map originalIndex out)"
    and a: "a < length out" and b: "b < length out" and ab: "a < b"
    and ha: "cmp (hostKey (out ! a)) bk = 0" and hb: "cmp (hostKey (out ! b)) bk = 0"
    and others: "\<forall>x\<in>set out. originalIndex x \<noteq> originalIndex (out ! a) \<and>
                    originalIndex x \<noteq> originalIndex (out ! b) \<longrightarrow> cmp (hostKey x) bk \<noteq> 0"
  shows "b = Suc a"
proof (rule ccontr)
  assume "b \<noteq> Suc a"
  with ab have j: "a < Suc a" "Suc a < b" by simp_all
  have m: "cmp (hostKey (out ! Suc a)) bk = 0"
    by (rule bucket_contiguous[OF c s j b ha hb])
  have l: "Suc a < length out" using j b by simp
  have inj: "originalIndex (out ! x) \<noteq> originalIndex (out ! y)"
    if "x < length out" "y < length out" "x \<noteq> y" for x y
    using d that by (metis length_map nth_eq_iff_index_eq nth_map)
  have "originalIndex (out ! Suc a) \<noteq> originalIndex (out ! a)" using inj[OF l a] by simp
  moreover have "originalIndex (out ! Suc a) \<noteq> originalIndex (out ! b)" using inj[OF l b] j by simp
  moreover have "out ! Suc a \<in> set out" using l by simp
  ultimately have "cmp (hostKey (out ! Suc a)) bk \<noteq> 0" using others by blast
  with m show False by simp
qed

lemma sortedDecorated_A_facts:
  assumes c: "collation cmp" and o: "sortedDecorated_A newURL enc cmp tabs = Inr out"
  shows "sorted_wrt (spec_precedes cmp) out"
    and "distinct (map originalIndex out)"
    and "length out = length tabs"
    and "\<And>i. i < length tabs \<Longrightarrow> \<exists>u. resolveTabUrl_A newURL enc (tabs ! i) = Inr u \<and>
            spec_decoration hostKey_A (tabs ! i) i u \<in> set out"
proof -
  from o obtain ds where m: "mapIndexed (decorate_A newURL enc) 0 tabs = Inr ds"
    and out: "out = sortBy (compareDecorated cmp) ds"
    unfolding sortedDecorated_A_Inr by blast
  have so: "spec_scope_order (resolveTabUrl_A newURL enc) hostKey_A cmp tabs out"
    unfolding out by (rule scope_order_generic[OF decorate_A_spec c m])
  show "sorted_wrt (spec_precedes cmp) out" using so unfolding spec_scope_order_def by blast
  show "length out = length tabs" using so unfolding spec_scope_order_def by blast
  show "\<exists>u. resolveTabUrl_A newURL enc (tabs ! i) = Inr u \<and>
            spec_decoration hostKey_A (tabs ! i) i u \<in> set out" if "i < length tabs" for i
    using so that unfolding spec_scope_order_def by blast
  have "distinct (map originalIndex ds)" using decorated_index[OF decorate_A_spec m] by simp
  then show "distinct (map originalIndex out)" unfolding out by (rule distinct_index_sortBy)
qed

lemma internal_addresses:
  "internalPrefix ''chrome://settings''" "internalPrefix ''about:blank''"
  "\<not> startsWith ''chrome://settings'' ''chrome-extension://''"
  "\<not> startsWith ''about:blank'' ''chrome-extension://''"
  by (simp_all add: internalPrefix_def startsWith_def)

lemma internal_decoration:
  assumes ph: "placeholder_host newURL ''internal''"
    and r: "rawAddress t = ''chrome://settings'' \<or> rawAddress t = ''about:blank''"
  shows "\<exists>u. newURL (''http://internal/'' @ enc (rawAddress t)) = Some u \<and>
             resolveTabUrl_A newURL enc t = Inr u \<and> hostKey_A u = ''internal'' \<and>
             decorate_A newURL enc t i =
               Inr \<lparr>dec_id = tab_id t, originalIndex = i, hostKey = ''internal'',
                    sortKey = ''internal'' @ pathname u @ search u @ hash u\<rparr>"
proof -
  have i: "internalPrefix (rawAddress t)" and e: "\<not> startsWith (rawAddress t) ''chrome-extension://''"
    using r internal_addresses by auto
  from resolve_A_internal[OF ph i e, of enc] obtain u where
    u: "resolveTabUrl_A newURL enc t = Inr u"
      "newURL (''http://internal/'' @ enc (rawAddress t)) = Some u" "hostKey_A u = ''internal''"
    by blast
  then have "decorate_A newURL enc t i =
               Inr \<lparr>dec_id = tab_id t, originalIndex = i, hostKey = ''internal'',
                    sortKey = ''internal'' @ pathname u @ search u @ hash u\<rparr>"
    by (simp add: decorate_A_def)
  with u show ?thesis by blast
qed

lemma internal_pair_adjacent:
  assumes ph: "placeholder_host newURL ''internal''" and c: "collation cmp"
    and o: "sortedDecorated_A newURL enc cmp tabs = Inr out"
    and p: "p < length tabs" and q: "q < length tabs"
    and rp: "rawAddress (tabs ! p) = ''chrome://settings''"
    and rq: "rawAddress (tabs ! q) = ''about:blank''"
    and others: "\<forall>d\<in>set out. originalIndex d \<noteq> p \<and> originalIndex d \<noteq> q \<longrightarrow>
                    cmp (hostKey d) ''internal'' \<noteq> 0"
  shows "\<exists>k. Suc k < length out \<and>
           ((originalIndex (out ! k) = p \<and> originalIndex (out ! Suc k) = q) \<or>
            (originalIndex (out ! k) = q \<and> originalIndex (out ! Suc k) = p))"
proof -
  note f = sortedDecorated_A_facts[OF c o]
  have pos: "\<exists>a<length out. originalIndex (out ! a) = x \<and> hostKey (out ! a) = ''internal''"
    if x: "x < length tabs"
      and r: "rawAddress (tabs ! x) = ''chrome://settings'' \<or> rawAddress (tabs ! x) = ''about:blank''"
    for x
  proof -
    from f(4)[OF x] obtain u where u: "resolveTabUrl_A newURL enc (tabs ! x) = Inr u"
      "spec_decoration hostKey_A (tabs ! x) x u \<in> set out" by blast
    from internal_decoration[OF ph r, of enc 0] u(1) have "hostKey_A u = ''internal''" by auto
    moreover from u(2) obtain a where "a < length out" "out ! a = spec_decoration hostKey_A (tabs ! x) x u"
      by (metis in_set_conv_nth)
    ultimately show ?thesis by (auto simp: spec_decoration_def)
  qed
  from pos[OF p] rp obtain a where a: "a < length out" "originalIndex (out ! a) = p"
    "hostKey (out ! a) = ''internal''" by auto
  from pos[OF q] rq obtain b where b: "b < length out" "originalIndex (out ! b) = q"
    "hostKey (out ! b) = ''internal''" by auto
  have "p \<noteq> q" using rp rq by auto
  with a b have ne: "a \<noteq> b" by auto
  have z: "cmp ''internal'' ''internal'' = 0" by (rule collation_refl[OF c])
  have oth: "\<forall>x\<in>set out. originalIndex x \<noteq> originalIndex (out ! a) \<and>
                    originalIndex x \<noteq> originalIndex (out ! b) \<longrightarrow> cmp (hostKey x) ''internal'' \<noteq> 0"
    using others a(2) b(2) by simp
  have oth': "\<forall>x\<in>set out. originalIndex x \<noteq> originalIndex (out ! b) \<and>
                    originalIndex x \<noteq> originalIndex (out ! a) \<longrightarrow> cmp (hostKey x) ''internal'' \<noteq> 0"
    using others a(2) b(2) by simp
  show ?thesis
  proof (cases "a < b")
    case True
    have "b = Suc a"
      by (rule bucket_adjacent[OF c f(1) f(2) a(1) b(1) True _ _ oth]) (simp_all add: a b z)
    with a b show ?thesis by blast
  next
    case False
    with ne have ba: "b < a" by simp
    have "a = Suc b"
      by (rule bucket_adjacent[OF c f(1) f(2) b(1) a(1) ba _ _ oth']) (simp_all add: a b z)
    with a b show ?thesis by blast
  qed
qed

text \<open>
  C2, as amended. In \<^verbatim>\<open>part_000\<close> the addresses \<open>chrome://settings\<close> and \<open>about:blank\<close> are
  replaced by the placeholder \<open>"http://internal/" + encodeURIComponent(raw)\<close> and get the
  bucket key \<open>internal\<close>. In the sorted scope the tabs whose bucket key collates equal to
  \<open>internal\<close> stand next to each other in one run, so the two tabs are adjacent whenever no
  other tab of the scope has such a bucket key.
\<close>

theorem internal_bucket:
  assumes "placeholder_host newURL ''internal''" and "collation cmp"
  shows
  "(\<forall>t i. rawAddress t = ''chrome://settings'' \<or> rawAddress t = ''about:blank'' \<longrightarrow>
      (\<exists>u. newURL (''http://internal/'' @ enc (rawAddress t)) = Some u \<and>
           resolveTabUrl_A newURL enc t = Inr u \<and>
           decorate_A newURL enc t i =
             Inr \<lparr>dec_id = tab_id t, originalIndex = i, hostKey = ''internal'',
                  sortKey = ''internal'' @ pathname u @ search u @ hash u\<rparr>)) \<and>
   (\<forall>out. sortedDecorated_A newURL enc cmp tabs = Inr out \<longrightarrow>
      (\<forall>i j k. i < j \<and> j < k \<and> k < length out \<and>
          cmp (hostKey (out ! i)) ''internal'' = 0 \<and> cmp (hostKey (out ! k)) ''internal'' = 0 \<longrightarrow>
          cmp (hostKey (out ! j)) ''internal'' = 0) \<and>
      (\<forall>p q. p < length tabs \<and> q < length tabs \<and>
          rawAddress (tabs ! p) = ''chrome://settings'' \<and> rawAddress (tabs ! q) = ''about:blank'' \<and>
          (\<forall>d\<in>set out. originalIndex d \<noteq> p \<and> originalIndex d \<noteq> q \<longrightarrow>
              cmp (hostKey d) ''internal'' \<noteq> 0) \<longrightarrow>
          (\<exists>k. Suc k < length out \<and>
             ((originalIndex (out ! k) = p \<and> originalIndex (out ! Suc k) = q) \<or>
              (originalIndex (out ! k) = q \<and> originalIndex (out ! Suc k) = p)))))"
proof (intro conjI allI impI)
  fix t i assume "rawAddress t = ''chrome://settings'' \<or> rawAddress t = ''about:blank''"
  from internal_decoration[OF assms(1) this, of enc i]
  show "\<exists>u. newURL (''http://internal/'' @ enc (rawAddress t)) = Some u \<and>
           resolveTabUrl_A newURL enc t = Inr u \<and>
           decorate_A newURL enc t i =
             Inr \<lparr>dec_id = tab_id t, originalIndex = i, hostKey = ''internal'',
                  sortKey = ''internal'' @ pathname u @ search u @ hash u\<rparr>"
    by blast
next
  fix out i j k
  assume o: "sortedDecorated_A newURL enc cmp tabs = Inr out"
    and h: "i < j \<and> j < k \<and> k < length out \<and>
          cmp (hostKey (out ! i)) ''internal'' = 0 \<and> cmp (hostKey (out ! k)) ''internal'' = 0"
  show "cmp (hostKey (out ! j)) ''internal'' = 0"
    by (rule bucket_contiguous[OF assms(2) sortedDecorated_A_facts(1)[OF assms(2) o], of i j k])
       (use h in simp_all)
next
  fix out p q
  assume o: "sortedDecorated_A newURL enc cmp tabs = Inr out"
    and h: "p < length tabs \<and> q < length tabs \<and>
          rawAddress (tabs ! p) = ''chrome://settings'' \<and> rawAddress (tabs ! q) = ''about:blank'' \<and>
          (\<forall>d\<in>set out. originalIndex d \<noteq> p \<and> originalIndex d \<noteq> q \<longrightarrow>
              cmp (hostKey d) ''internal'' \<noteq> 0)"
  show "\<exists>k. Suc k < length out \<and>
             ((originalIndex (out ! k) = p \<and> originalIndex (out ! Suc k) = q) \<or>
              (originalIndex (out ! k) = q \<and> originalIndex (out ! Suc k) = p))"
    by (rule internal_pair_adjacent[OF assms o]) (use h in blast)+
qed

theorem internal_bucket_witness:
  "placeholder_host newURL_ref ''internal'' \<and> collation localeCompare_ref \<and>
   sortedDecorated_A newURL_ref encodeURIComponent localeCompare_ref
     [\<lparr>tab_id = 1, url = ''chrome://settings'', pendingUrl = None, index = 0, pinned = False, groupId = - 1\<rparr>,
      \<lparr>tab_id = 2, url = ''https://example.com/'', pendingUrl = None, index = 1, pinned = False, groupId = - 1\<rparr>,
      \<lparr>tab_id = 3, url = ''about:blank'', pendingUrl = None, index = 2, pinned = False, groupId = - 1\<rparr>] =
   Inr [\<lparr>dec_id = 2, originalIndex = 1, hostKey = ''example.com'', sortKey = ''example.com/''\<rparr>,
      \<lparr>dec_id = 3, originalIndex = 2, hostKey = ''internal'', sortKey = ''internal/about%3Ablank''\<rparr>,
      \<lparr>dec_id = 1, originalIndex = 0, hostKey = ''internal'', sortKey = ''internal/chrome%3A%2F%2Fsettings''\<rparr>] \<and>
   localeCompare_ref ''example.com'' ''internal'' \<noteq> 0 \<and>
   (\<exists>k. Suc k < length [\<lparr>dec_id = 2, originalIndex = 1, hostKey = ''example.com'', sortKey = ''example.com/''\<rparr>,
      \<lparr>dec_id = 3, originalIndex = 2, hostKey = ''internal'', sortKey = ''internal/about%3Ablank''\<rparr>,
      \<lparr>dec_id = 1, originalIndex = 0, hostKey = ''internal'', sortKey = ''internal/chrome%3A%2F%2Fsettings''\<rparr>] \<and>
      ((originalIndex ([\<lparr>dec_id = 2, originalIndex = 1, hostKey = ''example.com'', sortKey = ''example.com/''\<rparr>,
      \<lparr>dec_id = 3, originalIndex = 2, hostKey = ''internal'', sortKey = ''internal/about%3Ablank''\<rparr>,
      \<lparr>dec_id = 1, originalIndex = 0, hostKey = ''internal'', sortKey = ''internal/chrome%3A%2F%2Fsettings''\<rparr>] ! k) = 0 \<and>
        originalIndex ([\<lparr>dec_id = 2, originalIndex = 1, hostKey = ''example.com'', sortKey = ''example.com/''\<rparr>,
      \<lparr>dec_id = 3, originalIndex = 2, hostKey = ''internal'', sortKey = ''internal/about%3Ablank''\<rparr>,
      \<lparr>dec_id = 1, originalIndex = 0, hostKey = ''internal'', sortKey = ''internal/chrome%3A%2F%2Fsettings''\<rparr>] ! Suc k) = 2) \<or>
       (originalIndex ([\<lparr>dec_id = 2, originalIndex = 1, hostKey = ''example.com'', sortKey = ''example.com/''\<rparr>,
      \<lparr>dec_id = 3, originalIndex = 2, hostKey = ''internal'', sortKey = ''internal/about%3Ablank''\<rparr>,
      \<lparr>dec_id = 1, originalIndex = 0, hostKey = ''internal'', sortKey = ''internal/chrome%3A%2F%2Fsettings''\<rparr>] ! k) = 2 \<and>
        originalIndex ([\<lparr>dec_id = 2, originalIndex = 1, hostKey = ''example.com'', sortKey = ''example.com/''\<rparr>,
      \<lparr>dec_id = 3, originalIndex = 2, hostKey = ''internal'', sortKey = ''internal/about%3Ablank''\<rparr>,
      \<lparr>dec_id = 1, originalIndex = 0, hostKey = ''internal'', sortKey = ''internal/chrome%3A%2F%2Fsettings''\<rparr>] ! Suc k) = 0)))"
proof -
  let ?tabs = "[\<lparr>tab_id = 1, url = ''chrome://settings'', pendingUrl = None, index = 0, pinned = False, groupId = - 1\<rparr>,
      \<lparr>tab_id = 2, url = ''https://example.com/'', pendingUrl = None, index = 1, pinned = False, groupId = - 1\<rparr>,
      \<lparr>tab_id = 3, url = ''about:blank'', pendingUrl = None, index = 2, pinned = False, groupId = - 1\<rparr>]"
  let ?out = "[\<lparr>dec_id = 2, originalIndex = 1, hostKey = ''example.com'', sortKey = ''example.com/''\<rparr>,
      \<lparr>dec_id = 3, originalIndex = 2, hostKey = ''internal'', sortKey = ''internal/about%3Ablank''\<rparr>,
      \<lparr>dec_id = 1, originalIndex = 0, hostKey = ''internal'', sortKey = ''internal/chrome%3A%2F%2Fsettings''\<rparr>]"
  have o: "sortedDecorated_A newURL_ref encodeURIComponent localeCompare_ref ?tabs = Inr ?out"
    by code_simp
  have l: "localeCompare_ref ''example.com'' ''internal'' \<noteq> 0" by code_simp
  have h: "0 < length ?tabs \<and> 2 < length ?tabs \<and>
          rawAddress (?tabs ! 0) = ''chrome://settings'' \<and> rawAddress (?tabs ! 2) = ''about:blank'' \<and>
          (\<forall>d\<in>set ?out. originalIndex d \<noteq> 0 \<and> originalIndex d \<noteq> 2 \<longrightarrow>
              localeCompare_ref (hostKey d) ''internal'' \<noteq> 0)"
    using l by (simp add: rawAddress_def)
  note T = internal_bucket[OF placeholder_internal_ref collation_ref, of encodeURIComponent ?tabs]
  have a: "(\<exists>k. Suc k < length ?out \<and>
             ((originalIndex (?out ! k) = 0 \<and> originalIndex (?out ! Suc k) = 2) \<or>
              (originalIndex (?out ! k) = 2 \<and> originalIndex (?out ! Suc k) = 0)))"
    by (rule T[THEN conjunct2, rule_format, OF o, THEN conjunct2, rule_format, OF h])
  show ?thesis by (intro conjI placeholder_internal_ref collation_ref o l a)
qed

text \<open>
  The claim as written fails. In \<^verbatim>\<open>part_000\<close> a scope with the two tabs and a tab at
  \<open>chrome://extensions\<close> is arranged with that tab between them. In \<^verbatim>\<open>background.js\<close>, which
  has no rule for internal pages, the two addresses get the bucket keys \<open>settings\<close> and the
  empty string.
\<close>

theorem internal_bucket_counterexample:
  "sortedDecorated_A newURL_ref encodeURIComponent localeCompare_ref
     [\<lparr>tab_id = 1, url = ''chrome://settings'', pendingUrl = None, index = 0, pinned = False, groupId = - 1\<rparr>,
      \<lparr>tab_id = 2, url = ''chrome://extensions'', pendingUrl = None, index = 1, pinned = False, groupId = - 1\<rparr>,
      \<lparr>tab_id = 3, url = ''about:blank'', pendingUrl = None, index = 2, pinned = False, groupId = - 1\<rparr>] =
   Inr [\<lparr>dec_id = 3, originalIndex = 2, hostKey = ''internal'', sortKey = ''internal/about%3Ablank''\<rparr>,
      \<lparr>dec_id = 2, originalIndex = 1, hostKey = ''internal'', sortKey = ''internal/chrome%3A%2F%2Fextensions''\<rparr>,
      \<lparr>dec_id = 1, originalIndex = 0, hostKey = ''internal'', sortKey = ''internal/chrome%3A%2F%2Fsettings''\<rparr>] \<and>
   sortedIds_A newURL_ref encodeURIComponent localeCompare_ref
     [\<lparr>tab_id = 1, url = ''chrome://settings'', pendingUrl = None, index = 0, pinned = False, groupId = - 1\<rparr>,
      \<lparr>tab_id = 2, url = ''chrome://extensions'', pendingUrl = None, index = 1, pinned = False, groupId = - 1\<rparr>,
      \<lparr>tab_id = 3, url = ''about:blank'', pendingUrl = None, index = 2, pinned = False, groupId = - 1\<rparr>] = Inr [3, 2, 1] \<and>
   decorate_B newURL_ref encodeURIComponent
     \<lparr>tab_id = 1, url = ''chrome://settings'', pendingUrl = None, index = 0, pinned = False, groupId = - 1\<rparr> 0 =
     Inr \<lparr>dec_id = 1, originalIndex = 0, hostKey = ''settings'', sortKey = ''settings''\<rparr> \<and>
   decorate_B newURL_ref encodeURIComponent
     \<lparr>tab_id = 3, url = ''about:blank'', pendingUrl = None, index = 2, pinned = False, groupId = - 1\<rparr> 0 =
     Inr \<lparr>dec_id = 3, originalIndex = 0, hostKey = [], sortKey = ''blank''\<rparr>"
  by code_simp

end
